theory Spec2Isabelle
  imports Main "HOL-Library.Word"
begin

section \<open>The thread-safe queue of video\_inference.cpp\<close>

text \<open>
  The program runs four threads: \<open>main\<close> and the three it creates.  A thread blocked in
  \<open>c.wait\<close> is recorded, by its identity, in the condition variable it waits on.
\<close>

datatype tid = mainThread | captureThread | processingThread | writingThread

text \<open>
  \<open>SafeQueue<T>\<close> has the members \<open>q\<close> (a \<open>std::queue\<close>, front of the queue = head of
  the list), \<open>m\<close>, \<open>c\<close> and \<open>finished\<close> (initially false).  Every member function holds
  the mutex \<open>m\<close> for its whole body, so each one is a single atomic transition of the
  queue and \<open>m\<close> needs no field of its own.  The condition variable \<open>c\<close> is the list of
  threads blocked in \<open>c.wait\<close>, oldest first.
\<close>

record 'a SafeQueue =
  q :: "'a list"
  c :: "tid list"
  finished :: bool

definition SafeQueue_new :: "'a SafeQueue" where
  "SafeQueue_new = \<lparr>q = [], c = [], finished = False\<rparr>"

text \<open>
  \<open>notify_one\<close> unblocks one waiting thread when there is one (here the one that has
  waited longest), \<open>notify_all\<close> unblocks all of them.
\<close>

definition notify_one :: "tid list \<Rightarrow> tid list" where
  "notify_one ws = (case ws of [] \<Rightarrow> [] | w # rest \<Rightarrow> rest)"

definition notify_all :: "tid list \<Rightarrow> tid list" where
  "notify_all ws = []"

text \<open>\<open>enqueue\<close>: \<open>q.push(t); c.notify_one();\<close>\<close>

definition enqueue :: "'a \<Rightarrow> 'a SafeQueue \<Rightarrow> 'a SafeQueue" where
  "enqueue t sq = sq\<lparr>q := q sq @ [t], c := notify_one (c sq)\<rparr>"

text \<open>
  \<open>bool dequeue(T& t)\<close> is the loop
  \<^verbatim>\<open>while (q.empty()) { if (finished) return false; c.wait(lock); }\<close>
  followed by \<open>t = q.front(); q.pop(); return true;\<close>.  One pass from the loop head,
  made with the mutex held, has three outcomes: \<open>Returned_true x\<close> (\<open>t\<close> was assigned
  \<open>x\<close> and the call returned true), \<open>Returned_false\<close> (the call returned false and
  \<open>t\<close> was not touched: the end-of-stream signal), and \<open>Waits\<close> (the calling thread
  entered \<open>c.wait\<close>, which releases the mutex and blocks it; once notified it takes the
  mutex again and makes the next pass from the loop head).
\<close>

datatype 'a dequeue_result = Returned_true 'a | Returned_false | Waits

definition dequeue :: "tid \<Rightarrow> 'a SafeQueue \<Rightarrow> 'a dequeue_result \<times> 'a SafeQueue" where
  "dequeue me sq =
     (case q sq of
        [] \<Rightarrow> if finished sq then (Returned_false, sq)
              else (Waits, sq\<lparr>c := c sq @ [me]\<rparr>)
      | x # xs \<Rightarrow> (Returned_true x, sq\<lparr>q := xs\<rparr>))"

text \<open>\<open>setFinished\<close>: \<open>finished = true; c.notify_all();\<close>\<close>

definition setFinished :: "'a SafeQueue \<Rightarrow> 'a SafeQueue" where
  "setFinished sq = sq\<lparr>finished := True, c := notify_all (c sq)\<rparr>"

text \<open>
  \<open>dequeues n me sq\<close>: the outcomes of up to \<open>n\<close> successive \<open>dequeue\<close> calls by one
  thread with no other operation in between.  A call that waits is the last one: nothing
  would wake the caller.
\<close>

fun dequeues :: "nat \<Rightarrow> tid \<Rightarrow> 'a SafeQueue \<Rightarrow> 'a dequeue_result list \<times> 'a SafeQueue" where
  "dequeues 0 me sq = ([], sq)"
| "dequeues (Suc n) me sq =
     (case dequeue me sq of
        (Waits, sq') \<Rightarrow> ([Waits], sq')
      | (r, sq') \<Rightarrow> (case dequeues n me sq' of (rs, sq'') \<Rightarrow> (r # rs, sq'')))"

section \<open>The collaborators of the pipeline\<close>

text \<open>
  \<open>cv::VideoCapture\<close> is a library object.  \<open>cap.read(frame)\<close> returns true and
  stores the next frame, or returns false when no frame could be grabbed, which happens
  both when the stream is exhausted and when reading fails.  The source is therefore the
  list of outcomes its further reads will have: a frame or a read error; at the end of
  the list the stream is exhausted.
\<close>

datatype 'f grab = Frame 'f | ReadError

definition read :: "'f grab list \<Rightarrow> 'f option \<times> 'f grab list" where
  "read src =
     (case src of
        [] \<Rightarrow> (None, [])
      | g # rest \<Rightarrow> (case g of Frame f \<Rightarrow> (Some f, rest) | ReadError \<Rightarrow> (None, rest)))"

text \<open>
  The detector class is declared in \<open>YOLO11-OBB.hpp\<close>; of it the pipeline uses
  \<open>detect(frame)\<close>, which returns the detections, and \<open>drawBoundingBox(frame, results)\<close>,
  which draws them into the frame.  Both are taken as parameters, and both are taken to
  return.
\<close>

record ('f, 'r) YOLO11OBBDetector =
  detect :: "'f \<Rightarrow> 'r"
  drawBoundingBox :: "'f \<Rightarrow> 'r \<Rightarrow> 'f"

section \<open>The program: \<open>main\<close> and its three threads\<close>

text \<open>
  Each thread is at a program point.  A transition is one operation on a shared object
  (a queue operation under its mutex, a read of the source, a write to the sink, a thread
  start or join) together with the thread-local statements around it.  The \<open>int\<close>
  counters \<open>frameCount\<close> and \<open>frameIndex\<close> are 32-bit.  Incrementing the largest
  \<open>int\<close> is undefined in C++; the model gives it the result of two's-complement
  hardware: \<open>+ 1\<close> on a word wraps around, and \<open>sint\<close> reads a word as an \<open>int\<close>.
\<close>

datatype main_pc =
    Main_open_cap | Main_open_out
  | Main_start_capture | Main_start_processing | Main_start_writing
  | Main_join_capture | Main_join_processing | Main_join_writing
  | Main_release | Main_returned int

datatype 'f capture_pc =
    Capture_not_started | Capture_read | Capture_enqueue 'f
  | Capture_setFinished | Capture_done

datatype 'f processing_pc =
    Processing_not_started | Processing_dequeue | Processing_wait
  | Processing_detect 'f | Processing_enqueue 'f
  | Processing_setFinished | Processing_done

datatype 'f writing_pc =
    Writing_not_started | Writing_dequeue | Writing_wait
  | Writing_write "32 word \<times> 'f" | Writing_done

text \<open>
  \<open>cap\<close> is the source (what its further reads return), \<open>out\<close> the sink (the frames
  written to it so far, in order); \<open>cap_isOpened\<close> and \<open>out_isOpened\<close> are what
  \<open>isOpened()\<close> answers once the object is constructed.
\<close>

record ('f, 'r) state =
  detector :: "('f, 'r) YOLO11OBBDetector"
  cap :: "'f grab list"
  cap_isOpened :: bool
  out :: "'f list"
  out_isOpened :: bool
  frameQueue :: "'f SafeQueue"
  processedQueue :: "(32 word \<times> 'f) SafeQueue"
  processingDone :: bool
  frameCount :: "32 word"
  frameIndex :: "32 word"
  mainPc :: main_pc
  capturePc :: "'f capture_pc"
  processingPc :: "'f processing_pc"
  writingPc :: "'f writing_pc"

text \<open>What a transition does, as far as the outside of the thread can see it.\<close>

datatype 'f event =
    Read "'f option"
  | Write 'f
  | EnqueueFrame 'f
  | EnqueueProcessed "32 word \<times> 'f"
  | FinishFrameQueue
  | FinishProcessedQueue
  | Start tid
  | Return int
  | Other

text \<open>
  \<open>main\<close>, lines 104 to 181: it returns \<open>-1\<close> when the source or the sink is not open,
  constructs the queues and the flag, starts the three threads in order, joins them in
  order, releases source and sink and returns 0.  A \<open>join\<close> can be taken only when the
  joined thread has returned.
\<close>

definition main_step :: "('f, 'r) state \<Rightarrow> ('f event \<times> ('f, 'r) state) option" where
  "main_step s =
     (case mainPc s of
        Main_open_cap \<Rightarrow>
          if cap_isOpened s then Some (Other, s\<lparr>mainPc := Main_open_out\<rparr>)
          else Some (Return (- 1), s\<lparr>mainPc := Main_returned (- 1)\<rparr>)
      | Main_open_out \<Rightarrow>
          if out_isOpened s
          then Some (Other, s\<lparr>frameQueue := SafeQueue_new, processedQueue := SafeQueue_new,
                              processingDone := False, mainPc := Main_start_capture\<rparr>)
          else Some (Return (- 1), s\<lparr>mainPc := Main_returned (- 1)\<rparr>)
      | Main_start_capture \<Rightarrow>
          Some (Start captureThread,
                s\<lparr>frameCount := 0, capturePc := Capture_read, mainPc := Main_start_processing\<rparr>)
      | Main_start_processing \<Rightarrow>
          Some (Start processingThread,
                s\<lparr>frameIndex := 0, processingPc := Processing_dequeue,
                  mainPc := Main_start_writing\<rparr>)
      | Main_start_writing \<Rightarrow>
          Some (Start writingThread,
                s\<lparr>writingPc := Writing_dequeue, mainPc := Main_join_capture\<rparr>)
      | Main_join_capture \<Rightarrow>
          (case capturePc s of
             Capture_done \<Rightarrow> Some (Other, s\<lparr>mainPc := Main_join_processing\<rparr>)
           | _ \<Rightarrow> None)
      | Main_join_processing \<Rightarrow>
          (case processingPc s of
             Processing_done \<Rightarrow> Some (Other, s\<lparr>mainPc := Main_join_writing\<rparr>)
           | _ \<Rightarrow> None)
      | Main_join_writing \<Rightarrow>
          (case writingPc s of
             Writing_done \<Rightarrow> Some (Other, s\<lparr>mainPc := Main_release\<rparr>)
           | _ \<Rightarrow> None)
      | Main_release \<Rightarrow>
          Some (Return 0, s\<lparr>cap_isOpened := False, out_isOpened := False,
                             mainPc := Main_returned 0\<rparr>)
      | Main_returned _ \<Rightarrow> None)"

text \<open>
  The capture thread, lines 134 to 142:
  \<^verbatim>\<open>while (cap.read(frame)) { frameQueue.enqueue(frame.clone()); frameCount++; }\<close>
  and then \<open>frameQueue.setFinished()\<close>.
\<close>

definition capture_step :: "('f, 'r) state \<Rightarrow> ('f event \<times> ('f, 'r) state) option" where
  "capture_step s =
     (case capturePc s of
        Capture_read \<Rightarrow>
          (case read (cap s) of
             (Some f, rest) \<Rightarrow> Some (Read (Some f), s\<lparr>cap := rest, capturePc := Capture_enqueue f\<rparr>)
           | (None, rest) \<Rightarrow> Some (Read None, s\<lparr>cap := rest, capturePc := Capture_setFinished\<rparr>))
      | Capture_enqueue f \<Rightarrow>
          Some (EnqueueFrame f,
                s\<lparr>frameQueue := enqueue f (frameQueue s), frameCount := frameCount s + 1,
                  capturePc := Capture_read\<rparr>)
      | Capture_setFinished \<Rightarrow>
          Some (FinishFrameQueue,
                s\<lparr>frameQueue := setFinished (frameQueue s), capturePc := Capture_done\<rparr>)
      | _ \<Rightarrow> None)"

text \<open>
  The processing thread, lines 145 to 159: while \<open>frameQueue.dequeue(frame)\<close> returns
  true, it detects, draws, and enqueues \<open>make_pair(frameIndex++, frame)\<close>; then
  \<open>processedQueue.setFinished()\<close>.  A thread in \<open>c.wait\<close> moves again, back to the loop
  head of \<open>dequeue\<close>, once a notification has taken it out of \<open>c\<close>.  A wake-up without
  a notification is left out of the model: it would lead to the loop head, and from there
  back into \<open>c.wait\<close>, with nothing changed.
\<close>

definition processing_step :: "('f, 'r) state \<Rightarrow> ('f event \<times> ('f, 'r) state) option" where
  "processing_step s =
     (case processingPc s of
        Processing_dequeue \<Rightarrow>
          (case dequeue processingThread (frameQueue s) of
             (Returned_true f, sq) \<Rightarrow>
               Some (Other, s\<lparr>frameQueue := sq, processingPc := Processing_detect f\<rparr>)
           | (Returned_false, sq) \<Rightarrow>
               Some (Other, s\<lparr>frameQueue := sq, processingPc := Processing_setFinished\<rparr>)
           | (Waits, sq) \<Rightarrow>
               Some (Other, s\<lparr>frameQueue := sq, processingPc := Processing_wait\<rparr>))
      | Processing_wait \<Rightarrow>
          if processingThread \<in> set (c (frameQueue s)) then None
          else Some (Other, s\<lparr>processingPc := Processing_dequeue\<rparr>)
      | Processing_detect f \<Rightarrow>
          Some (Other,
                s\<lparr>processingPc :=
                    Processing_enqueue
                      (drawBoundingBox (detector s) f (detect (detector s) f))\<rparr>)
      | Processing_enqueue f \<Rightarrow>
          Some (EnqueueProcessed (frameIndex s, f),
                s\<lparr>processedQueue := enqueue (frameIndex s, f) (processedQueue s),
                  frameIndex := frameIndex s + 1, processingPc := Processing_dequeue\<rparr>)
      | Processing_setFinished \<Rightarrow>
          Some (FinishProcessedQueue,
                s\<lparr>processedQueue := setFinished (processedQueue s),
                  processingPc := Processing_done\<rparr>)
      | _ \<Rightarrow> None)"

text \<open>
  The writing thread, lines 162 to 167: while \<open>processedQueue.dequeue(processedFrame)\<close>
  returns true, \<open>out.write(processedFrame.second)\<close>.
\<close>

definition writing_step :: "('f, 'r) state \<Rightarrow> ('f event \<times> ('f, 'r) state) option" where
  "writing_step s =
     (case writingPc s of
        Writing_dequeue \<Rightarrow>
          (case dequeue writingThread (processedQueue s) of
             (Returned_true p, sq) \<Rightarrow>
               Some (Other, s\<lparr>processedQueue := sq, writingPc := Writing_write p\<rparr>)
           | (Returned_false, sq) \<Rightarrow>
               Some (Other, s\<lparr>processedQueue := sq, writingPc := Writing_done\<rparr>)
           | (Waits, sq) \<Rightarrow>
               Some (Other, s\<lparr>processedQueue := sq, writingPc := Writing_wait\<rparr>))
      | Writing_wait \<Rightarrow>
          if writingThread \<in> set (c (processedQueue s)) then None
          else Some (Other, s\<lparr>writingPc := Writing_dequeue\<rparr>)
      | Writing_write p \<Rightarrow>
          Some (Write (snd p), s\<lparr>out := out s @ [snd p], writingPc := Writing_dequeue\<rparr>)
      | _ \<Rightarrow> None)"

text \<open>One transition of thread \<open>t\<close>; \<open>None\<close> when \<open>t\<close> cannot move.\<close>

definition step :: "tid \<Rightarrow> ('f, 'r) state \<Rightarrow> ('f event \<times> ('f, 'r) state) option" where
  "step t s =
     (case t of
        mainThread \<Rightarrow> main_step s
      | captureThread \<Rightarrow> capture_step s
      | processingThread \<Rightarrow> processing_step s
      | writingThread \<Rightarrow> writing_step s)"

text \<open>
  A run follows a schedule, the list of the threads that are given the processor in
  turn; a thread that cannot move when its turn comes leaves the state as it is.  The
  result is the list of events and the state reached.
\<close>

fun exec :: "tid list \<Rightarrow> ('f, 'r) state \<Rightarrow> 'f event list \<times> ('f, 'r) state" where
  "exec [] s = ([], s)"
| "exec (t # ts) s =
     (case step t s of
        None \<Rightarrow> exec ts s
      | Some (e, s') \<Rightarrow> (case exec ts s' of (es, s'') \<Rightarrow> (e # es, s'')))"

text \<open>The state in which \<open>main\<close> is entered.\<close>

definition init ::
  "('f, 'r) YOLO11OBBDetector \<Rightarrow> bool \<Rightarrow> bool \<Rightarrow> 'f grab list \<Rightarrow> ('f, 'r) state" where
  "init d cap_ok out_ok src =
     \<lparr>detector = d, cap = src, cap_isOpened = cap_ok, out = [], out_isOpened = out_ok,
      frameQueue = SafeQueue_new, processedQueue = SafeQueue_new, processingDone = False,
      frameCount = 0, frameIndex = 0, mainPc = Main_open_cap,
      capturePc = Capture_not_started, processingPc = Processing_not_started,
      writingPc = Writing_not_started\<rparr>"

text \<open>No thread can move.\<close>

definition halted :: "('f, 'r) state \<Rightarrow> bool" where
  "halted s =
     list_all (\<lambda>t. case step t s of None \<Rightarrow> True | Some _ \<Rightarrow> False)
       [mainThread, captureThread, processingThread, writingThread]"

text \<open>Every run from \<open>s\<close> is finite.\<close>

inductive terminates :: "('f, 'r) state \<Rightarrow> bool" where
  "(\<And>t e s'. step t s = Some (e, s') \<Longrightarrow> terminates s') \<Longrightarrow> terminates s"

text \<open>Projections of a list of events.\<close>

fun reads :: "'f event list \<Rightarrow> 'f list" where
  "reads [] = []"
| "reads (Read (Some f) # es) = f # reads es"
| "reads (e # es) = reads es"

fun read_calls :: "'f event list \<Rightarrow> nat" where
  "read_calls [] = 0"
| "read_calls (Read r # es) = Suc (read_calls es)"
| "read_calls (e # es) = read_calls es"

fun writes :: "'f event list \<Rightarrow> 'f list" where
  "writes [] = []"
| "writes (Write f # es) = f # writes es"
| "writes (e # es) = writes es"

fun enqueued :: "'f event list \<Rightarrow> (32 word \<times> 'f) list" where
  "enqueued [] = []"
| "enqueued (EnqueueProcessed p # es) = p # enqueued es"
| "enqueued (e # es) = enqueued es"

fun starts :: "'f event list \<Rightarrow> tid list" where
  "starts [] = []"
| "starts (Start t # es) = t # starts es"
| "starts (e # es) = starts es"

section \<open>Notions used in the proofs\<close>

text \<open>What the processing thread makes of a frame: \<open>detect\<close>, then \<open>drawBoundingBox\<close>.\<close>

definition annotate :: "('f, 'r) YOLO11OBBDetector \<Rightarrow> 'f \<Rightarrow> 'f" where
  "annotate d f = drawBoundingBox d f (detect d f)"

text \<open>The frames a source yields: those before its first read error, or all of them.\<close>

fun yielded :: "'f grab list \<Rightarrow> 'f list" where
  "yielded [] = []"
| "yielded (Frame f # rest) = f # yielded rest"
| "yielded (ReadError # rest) = []"

text \<open>How far \<open>main\<close> has come.\<close>

fun main_rank :: "main_pc \<Rightarrow> nat" where
  "main_rank Main_open_cap = 0"
| "main_rank Main_open_out = 1"
| "main_rank Main_start_capture = 2"
| "main_rank Main_start_processing = 3"
| "main_rank Main_start_writing = 4"
| "main_rank Main_join_capture = 5"
| "main_rank Main_join_processing = 6"
| "main_rank Main_join_writing = 7"
| "main_rank Main_release = 8"
| "main_rank (Main_returned r) = (if r = 0 then 9 else 0)"

text \<open>
  The invariant of the threads: a thread has started once \<open>main\<close> is past its start and
  has returned once \<open>main\<close> is past its join.
\<close>

definition threads_ok :: "('f, 'r) state \<Rightarrow> bool" where
  "threads_ok s \<longleftrightarrow>
     (capturePc s = Capture_not_started \<longleftrightarrow> main_rank (mainPc s) \<le> 2)
   \<and> (processingPc s = Processing_not_started \<longleftrightarrow> main_rank (mainPc s) \<le> 3)
   \<and> (writingPc s = Writing_not_started \<longleftrightarrow> main_rank (mainPc s) \<le> 4)
   \<and> (6 \<le> main_rank (mainPc s) \<longrightarrow> capturePc s = Capture_done)
   \<and> (7 \<le> main_rank (mainPc s) \<longrightarrow> processingPc s = Processing_done)
   \<and> (8 \<le> main_rank (mainPc s) \<longrightarrow> writingPc s = Writing_done)"

text \<open>
  The invariant of a queue, with its producer and its one consumer: \<open>finished\<close> is set
  exactly when the producer has returned; a consumer blocked in \<open>c\<close> has seen the queue
  empty and not finished, and it still is; a consumer that got end of stream left the
  queue empty.
\<close>

definition queue_ok ::
  "'a SafeQueue \<Rightarrow> tid \<Rightarrow> bool \<Rightarrow> bool \<Rightarrow> bool \<Rightarrow> bool \<Rightarrow> bool" where
  "queue_ok sq consumer producer_not_started producer_done consumer_waits consumer_saw_end \<longleftrightarrow>
     (finished sq \<longleftrightarrow> producer_done)
   \<and> (producer_not_started \<longrightarrow> q sq = [])
   \<and> (consumer_saw_end \<longrightarrow> q sq = [] \<and> finished sq)
   \<and> (c sq = [] \<or> c sq = [consumer] \<and> consumer_waits \<and> q sq = [] \<and> \<not> finished sq)"

definition frameQueue_ok :: "('f, 'r) state \<Rightarrow> bool" where
  "frameQueue_ok s \<longleftrightarrow>
     queue_ok (frameQueue s) processingThread
       (capturePc s = Capture_not_started) (capturePc s = Capture_done)
       (processingPc s = Processing_wait)
       (processingPc s = Processing_setFinished \<or> processingPc s = Processing_done)"

definition processedQueue_ok :: "('f, 'r) state \<Rightarrow> bool" where
  "processedQueue_ok s \<longleftrightarrow>
     queue_ok (processedQueue s) writingThread
       (processingPc s = Processing_not_started) (processingPc s = Processing_done)
       (writingPc s = Writing_wait) (writingPc s = Writing_done)"

text \<open>
  The invariant of the setup, for a run entered with \<open>isOpened()\<close> answering \<open>a\<close> for the
  source and \<open>b\<close> for the sink.
\<close>

definition setup_ok :: "bool \<Rightarrow> bool \<Rightarrow> ('f, 'r) state \<Rightarrow> bool" where
  "setup_ok a b s \<longleftrightarrow>
     (mainPc s = Main_open_cap \<longrightarrow> cap_isOpened s = a \<and> out_isOpened s = b)
   \<and> (mainPc s = Main_open_out \<longrightarrow> a \<and> out_isOpened s = b)
   \<and> (2 \<le> main_rank (mainPc s) \<longrightarrow> a \<and> b)
   \<and> (\<forall>r. mainPc s = Main_returned r \<longrightarrow> r = 0 \<or> r = - 1 \<and> \<not> (a \<and> b))"

definition wf :: "('f, 'r) state \<Rightarrow> bool" where
  "wf s \<longleftrightarrow> threads_ok s \<and> frameQueue_ok s \<and> processedQueue_ok s"

text \<open>
  The frames on their way, oldest first: those written, the one the writing thread
  holds, those in \<open>processedQueue\<close>, the one the processing thread holds, those in
  \<open>frameQueue\<close>, the one the capture thread holds, and those the capture thread will
  still read.  Frames that the processing thread has not yet annotated are listed
  annotated.
\<close>

fun still_to_read :: "'f capture_pc \<Rightarrow> 'f grab list \<Rightarrow> 'f list" where
  "still_to_read Capture_setFinished src = []"
| "still_to_read Capture_done src = []"
| "still_to_read pc src = yielded src"

definition to_read :: "('f, 'r) state \<Rightarrow> 'f list" where
  "to_read s = still_to_read (capturePc s) (cap s)"

fun capture_holds :: "'f capture_pc \<Rightarrow> 'f list" where
  "capture_holds (Capture_enqueue f) = [f]"
| "capture_holds pc = []"

fun processing_holds :: "('f, 'r) YOLO11OBBDetector \<Rightarrow> 'f processing_pc \<Rightarrow> 'f list" where
  "processing_holds d (Processing_detect f) = [annotate d f]"
| "processing_holds d (Processing_enqueue f) = [f]"
| "processing_holds d pc = []"

fun writing_holds :: "'f writing_pc \<Rightarrow> 'f list" where
  "writing_holds (Writing_write p) = [snd p]"
| "writing_holds pc = []"

definition in_flight :: "('f, 'r) state \<Rightarrow> 'f list" where
  "in_flight s =
     writing_holds (writingPc s) @ map snd (q (processedQueue s))
       @ processing_holds (detector s) (processingPc s)
       @ map (annotate (detector s)) (q (frameQueue s) @ capture_holds (capturePc s))"

text \<open>The index the processing thread gives to the next pair.\<close>

fun index_at :: "'f processing_pc \<Rightarrow> 32 word \<Rightarrow> 32 word" where
  "index_at Processing_not_started i = 0"
| "index_at pc i = i"

definition next_index :: "('f, 'r) state \<Rightarrow> 32 word" where
  "next_index s = index_at (processingPc s) (frameIndex s)"

text \<open>
  A bound on the number of transitions that are left: every transition makes it smaller.
\<close>

fun main_work :: "main_pc \<Rightarrow> nat" where
  "main_work (Main_returned r) = 0"
| "main_work pc = 10 - main_rank pc"

fun capture_work :: "'f capture_pc \<Rightarrow> nat \<Rightarrow> nat" where
  "capture_work Capture_not_started n = 7 + 14 * n"
| "capture_work Capture_read n = 7 + 14 * n"
| "capture_work (Capture_enqueue f) n = 20 + 14 * n"
| "capture_work Capture_setFinished n = 6"
| "capture_work Capture_done n = 0"

fun processing_work :: "'f processing_pc \<Rightarrow> bool \<Rightarrow> nat" where
  "processing_work Processing_not_started blocked = 4"
| "processing_work Processing_dequeue blocked = 4"
| "processing_work Processing_wait blocked = (if blocked then 0 else 5)"
| "processing_work (Processing_detect f) blocked = 10"
| "processing_work (Processing_enqueue f) blocked = 9"
| "processing_work Processing_setFinished blocked = 3"
| "processing_work Processing_done blocked = 0"

fun writing_work :: "'f writing_pc \<Rightarrow> bool \<Rightarrow> nat" where
  "writing_work Writing_not_started blocked = 2"
| "writing_work Writing_dequeue blocked = 1"
| "writing_work Writing_wait blocked = (if blocked then 0 else 2)"
| "writing_work (Writing_write p) blocked = 2"
| "writing_work Writing_done blocked = 0"

definition work :: "('f, 'r) state \<Rightarrow> nat" where
  "work s =
     main_work (mainPc s) + capture_work (capturePc s) (length (cap s))
       + processing_work (processingPc s) (processingThread \<in> set (c (frameQueue s)))
       + writing_work (writingPc s) (writingThread \<in> set (c (processedQueue s)))
       + 7 * length (q (frameQueue s)) + 2 * length (q (processedQueue s))"

text \<open>How often the capture thread has called \<open>frameQueue.setFinished()\<close>.\<close>

fun finishes :: "'f event list \<Rightarrow> nat" where
  "finishes [] = 0"
| "finishes (FinishFrameQueue # es) = Suc (finishes es)"
| "finishes (e # es) = finishes es"

text \<open>
  A detector on frames that are numbers, a schedule that takes the threads in turn, and
  one that lets each frame pass through the three threads before the next is read.
\<close>

definition sample_detector :: "(nat, nat) YOLO11OBBDetector" where
  "sample_detector = \<lparr>detect = Suc, drawBoundingBox = (+)\<rparr>"

definition in_turn :: "nat \<Rightarrow> tid list" where
  "in_turn n = concat (replicate n [mainThread, writingThread, processingThread, captureThread])"

definition one_frame :: "tid list" where
  "one_frame = [captureThread, captureThread, processingThread, processingThread,
     processingThread, writingThread, writingThread]"

definition frame_by_frame :: "nat \<Rightarrow> tid list" where
  "frame_by_frame n = replicate 5 mainThread @ concat (replicate n one_frame)"

text \<open>
  The three threads are at the heads of their loops and both queues are empty: the
  state between two frames when frames pass one by one.
\<close>

definition between_frames :: "('f, 'r) state \<Rightarrow> bool" where
  "between_frames s \<longleftrightarrow>
     capturePc s = Capture_read \<and> processingPc s = Processing_dequeue
   \<and> writingPc s = Writing_dequeue
   \<and> q (frameQueue s) = [] \<and> q (processedQueue s) = []"

text \<open>
  How many calls of \<open>cap.read\<close> and of \<open>frameQueue.setFinished\<close> the capture thread has
  still to make.
\<close>

fun reads_left :: "'f capture_pc \<Rightarrow> 'f grab list \<Rightarrow> nat" where
  "reads_left Capture_setFinished src = 0"
| "reads_left Capture_done src = 0"
| "reads_left pc src = Suc (length (yielded src))"

fun finishes_left :: "'f capture_pc \<Rightarrow> nat" where
  "finishes_left Capture_done = 0"
| "finishes_left pc = 1"

text \<open>
  The values that \<open>processingDone\<close> has in the states a run passes through, from the
  first state to the last.
\<close>

fun flag_values :: "tid list \<Rightarrow> ('f, 'r) state \<Rightarrow> bool list" where
  "flag_values [] s = [processingDone s]"
| "flag_values (t # ts) s =
     (case step t s of
        None \<Rightarrow> flag_values ts s
      | Some (e, s') \<Rightarrow> processingDone s # flag_values ts s')"

section \<open>The transitions, case by case\<close>

lemma main_step_cases [consumes 1, case_names open_cap_ok open_cap_fail open_out_ok open_out_fail
    start_capture start_processing start_writing join_capture join_processing join_writing release]:
  assumes "main_step s = Some (e, s')"
  obtains
    "mainPc s = Main_open_cap" "cap_isOpened s" "e = Other" "s' = s\<lparr>mainPc := Main_open_out\<rparr>"
  | "mainPc s = Main_open_cap" "\<not> cap_isOpened s" "e = Return (- 1)"
      "s' = s\<lparr>mainPc := Main_returned (- 1)\<rparr>"
  | "mainPc s = Main_open_out" "out_isOpened s" "e = Other"
      "s' = s\<lparr>frameQueue := SafeQueue_new, processedQueue := SafeQueue_new,
               processingDone := False, mainPc := Main_start_capture\<rparr>"
  | "mainPc s = Main_open_out" "\<not> out_isOpened s" "e = Return (- 1)"
      "s' = s\<lparr>mainPc := Main_returned (- 1)\<rparr>"
  | "mainPc s = Main_start_capture" "e = Start captureThread"
      "s' = s\<lparr>frameCount := 0, capturePc := Capture_read, mainPc := Main_start_processing\<rparr>"
  | "mainPc s = Main_start_processing" "e = Start processingThread"
      "s' = s\<lparr>frameIndex := 0, processingPc := Processing_dequeue, mainPc := Main_start_writing\<rparr>"
  | "mainPc s = Main_start_writing" "e = Start writingThread"
      "s' = s\<lparr>writingPc := Writing_dequeue, mainPc := Main_join_capture\<rparr>"
  | "mainPc s = Main_join_capture" "capturePc s = Capture_done" "e = Other"
      "s' = s\<lparr>mainPc := Main_join_processing\<rparr>"
  | "mainPc s = Main_join_processing" "processingPc s = Processing_done" "e = Other"
      "s' = s\<lparr>mainPc := Main_join_writing\<rparr>"
  | "mainPc s = Main_join_writing" "writingPc s = Writing_done" "e = Other"
      "s' = s\<lparr>mainPc := Main_release\<rparr>"
  | "mainPc s = Main_release" "e = Return 0"
      "s' = s\<lparr>cap_isOpened := False, out_isOpened := False, mainPc := Main_returned 0\<rparr>"
proof (cases "mainPc s")
  case Main_join_capture
  with assms that(8) show ?thesis
    by (cases "capturePc s") (simp_all add: main_step_def)
next
  case Main_join_processing
  with assms that(9) show ?thesis
    by (cases "processingPc s") (simp_all add: main_step_def)
next
  case Main_join_writing
  with assms that(10) show ?thesis
    by (cases "writingPc s") (simp_all add: main_step_def)
next
  case Main_open_cap
  with assms that(1,2) show ?thesis
    by (cases "cap_isOpened s") (simp_all add: main_step_def)
next
  case Main_open_out
  with assms that(3,4) show ?thesis
    by (cases "out_isOpened s") (simp_all add: main_step_def)
next
  case Main_start_capture
  with assms that(5) show ?thesis by (simp add: main_step_def)
next
  case Main_start_processing
  with assms that(6) show ?thesis by (simp add: main_step_def)
next
  case Main_start_writing
  with assms that(7) show ?thesis by (simp add: main_step_def)
next
  case Main_release
  with assms that(11) show ?thesis by (simp add: main_step_def)
next
  case (Main_returned r)
  with assms show ?thesis by (simp add: main_step_def)
qed

lemma read_cases:
  obtains f rest where "src = Frame f # rest" "read src = (Some f, rest)"
  | rest where "src = ReadError # rest" "read src = (None, rest)"
  | "src = []" "read src = (None, [])"
proof (cases src)
  case Nil
  with that(3) show ?thesis by (simp add: read_def)
next
  case (Cons g rest)
  with that(1,2) show ?thesis by (cases g) (simp_all add: read_def)
qed

lemma capture_step_cases [consumes 1, case_names read_frame read_error read_end enqueue setFinished]:
  assumes "capture_step s = Some (e, s')"
  obtains
    f rest where "capturePc s = Capture_read" "cap s = Frame f # rest" "e = Read (Some f)"
      "s' = s\<lparr>cap := rest, capturePc := Capture_enqueue f\<rparr>"
  | rest where "capturePc s = Capture_read" "cap s = ReadError # rest" "e = Read None"
      "s' = s\<lparr>cap := rest, capturePc := Capture_setFinished\<rparr>"
  | "capturePc s = Capture_read" "cap s = []" "e = Read None"
      "s' = s\<lparr>cap := [], capturePc := Capture_setFinished\<rparr>"
  | f where "capturePc s = Capture_enqueue f" "e = EnqueueFrame f"
      "s' = s\<lparr>frameQueue := enqueue f (frameQueue s), frameCount := frameCount s + 1,
               capturePc := Capture_read\<rparr>"
  | "capturePc s = Capture_setFinished" "e = FinishFrameQueue"
      "s' = s\<lparr>frameQueue := setFinished (frameQueue s), capturePc := Capture_done\<rparr>"
proof (cases "capturePc s")
  case Capture_read
  show ?thesis
  proof (cases rule: read_cases [of "cap s"])
    case (1 f rest)
    with assms Capture_read that(1) show ?thesis by (simp add: capture_step_def)
  next
    case (2 rest)
    with assms Capture_read that(2) show ?thesis by (simp add: capture_step_def)
  next
    case 3
    with assms Capture_read that(3) show ?thesis by (simp add: capture_step_def)
  qed
next
  case Capture_not_started
  with assms show ?thesis by (simp add: capture_step_def)
next
  case (Capture_enqueue f)
  with assms that(4) show ?thesis by (simp add: capture_step_def)
next
  case Capture_setFinished
  with assms that(5) show ?thesis by (simp add: capture_step_def)
next
  case Capture_done
  with assms show ?thesis by (simp add: capture_step_def)
qed

lemma dequeue_cases:
  obtains x xs where "q sq = x # xs" "dequeue me sq = (Returned_true x, sq\<lparr>q := xs\<rparr>)"
  | "q sq = []" "finished sq" "dequeue me sq = (Returned_false, sq)"
  | "q sq = []" "\<not> finished sq" "dequeue me sq = (Waits, sq\<lparr>c := c sq @ [me]\<rparr>)"
proof (cases "q sq")
  case Nil
  with that(2,3) show ?thesis by (cases "finished sq") (simp_all add: dequeue_def)
next
  case (Cons x xs)
  with that(1) show ?thesis by (simp add: dequeue_def)
qed

lemma processing_step_cases [consumes 1, case_names dequeue_item dequeue_end dequeue_wait wake
    detect enqueue setFinished]:
  assumes "processing_step s = Some (e, s')"
  obtains
    f fs where "processingPc s = Processing_dequeue" "q (frameQueue s) = f # fs" "e = Other"
      "s' = s\<lparr>frameQueue := (frameQueue s)\<lparr>q := fs\<rparr>, processingPc := Processing_detect f\<rparr>"
  | "processingPc s = Processing_dequeue" "q (frameQueue s) = []" "finished (frameQueue s)"
      "e = Other" "s' = s\<lparr>processingPc := Processing_setFinished\<rparr>"
  | "processingPc s = Processing_dequeue" "q (frameQueue s) = []" "\<not> finished (frameQueue s)"
      "e = Other"
      "s' = s\<lparr>frameQueue := (frameQueue s)\<lparr>c := c (frameQueue s) @ [processingThread]\<rparr>,
               processingPc := Processing_wait\<rparr>"
  | "processingPc s = Processing_wait" "processingThread \<notin> set (c (frameQueue s))" "e = Other"
      "s' = s\<lparr>processingPc := Processing_dequeue\<rparr>"
  | f where "processingPc s = Processing_detect f" "e = Other"
      "s' = s\<lparr>processingPc := Processing_enqueue (annotate (detector s) f)\<rparr>"
  | f where "processingPc s = Processing_enqueue f" "e = EnqueueProcessed (frameIndex s, f)"
      "s' = s\<lparr>processedQueue := enqueue (frameIndex s, f) (processedQueue s),
               frameIndex := frameIndex s + 1, processingPc := Processing_dequeue\<rparr>"
  | "processingPc s = Processing_setFinished" "e = FinishProcessedQueue"
      "s' = s\<lparr>processedQueue := setFinished (processedQueue s), processingPc := Processing_done\<rparr>"
proof (cases "processingPc s")
  case Processing_dequeue
  show ?thesis
  proof (cases rule: dequeue_cases [of "frameQueue s" processingThread])
    case (1 x xs)
    with assms Processing_dequeue that(1) show ?thesis by (simp add: processing_step_def)
  next
    case 2
    with assms Processing_dequeue that(2) show ?thesis by (simp add: processing_step_def)
  next
    case 3
    with assms Processing_dequeue that(3) show ?thesis by (simp add: processing_step_def)
  qed
next
  case Processing_wait
  with assms that(4) show ?thesis
    by (cases "processingThread \<in> set (c (frameQueue s))")
      (simp_all add: processing_step_def)
next
  case Processing_not_started
  with assms show ?thesis by (simp add: processing_step_def)
next
  case (Processing_detect f)
  with assms that(5) show ?thesis by (simp add: processing_step_def annotate_def)
next
  case (Processing_enqueue f)
  with assms that(6) show ?thesis by (simp add: processing_step_def)
next
  case Processing_setFinished
  with assms that(7) show ?thesis by (simp add: processing_step_def)
next
  case Processing_done
  with assms show ?thesis by (simp add: processing_step_def)
qed

lemma writing_step_cases [consumes 1, case_names dequeue_item dequeue_end dequeue_wait wake write_frame]:
  assumes "writing_step s = Some (e, s')"
  obtains
    p ps where "writingPc s = Writing_dequeue" "q (processedQueue s) = p # ps" "e = Other"
      "s' = s\<lparr>processedQueue := (processedQueue s)\<lparr>q := ps\<rparr>, writingPc := Writing_write p\<rparr>"
  | "writingPc s = Writing_dequeue" "q (processedQueue s) = []" "finished (processedQueue s)"
      "e = Other" "s' = s\<lparr>writingPc := Writing_done\<rparr>"
  | "writingPc s = Writing_dequeue" "q (processedQueue s) = []" "\<not> finished (processedQueue s)"
      "e = Other"
      "s' = s\<lparr>processedQueue := (processedQueue s)\<lparr>c := c (processedQueue s) @ [writingThread]\<rparr>,
               writingPc := Writing_wait\<rparr>"
  | "writingPc s = Writing_wait" "writingThread \<notin> set (c (processedQueue s))" "e = Other"
      "s' = s\<lparr>writingPc := Writing_dequeue\<rparr>"
  | p where "writingPc s = Writing_write p" "e = Write (snd p)"
      "s' = s\<lparr>out := out s @ [snd p], writingPc := Writing_dequeue\<rparr>"
proof (cases "writingPc s")
  case Writing_dequeue
  show ?thesis
  proof (cases rule: dequeue_cases [of "processedQueue s" writingThread])
    case (1 x xs)
    with assms Writing_dequeue that(1) show ?thesis by (simp add: writing_step_def)
  next
    case 2
    with assms Writing_dequeue that(2) show ?thesis by (simp add: writing_step_def)
  next
    case 3
    with assms Writing_dequeue that(3) show ?thesis by (simp add: writing_step_def)
  qed
next
  case Writing_wait
  with assms that(4) show ?thesis
    by (cases "writingThread \<in> set (c (processedQueue s))")
      (simp_all add: writing_step_def)
next
  case Writing_not_started
  with assms show ?thesis by (simp add: writing_step_def)
next
  case (Writing_write p)
  with assms that(5) show ?thesis by (simp add: writing_step_def)
next
  case Writing_done
  with assms show ?thesis by (simp add: writing_step_def)
qed

section \<open>Invariants of the run\<close>

lemmas wf_defs = wf_def threads_ok_def frameQueue_ok_def processedQueue_ok_def queue_ok_def
lemmas step_elims = main_step_cases capture_step_cases processing_step_cases writing_step_cases
lemmas queue_defs = enqueue_def setFinished_def notify_one_def notify_all_def SafeQueue_new_def

lemma wf_init: "wf (init d a b src)"
  by (simp add: wf_defs init_def SafeQueue_new_def)

lemma setup_ok_init: "setup_ok a b (init d a b src)"
  by (simp add: setup_ok_def init_def)

lemma main_step_wf:
  assumes "main_step s = Some (e, s')" "wf s"
  shows "wf s'"
  using assms
  by (cases rule: main_step_cases) (auto simp: wf_defs SafeQueue_new_def split: if_splits)

lemma capture_step_wf:
  assumes "capture_step s = Some (e, s')" "wf s"
  shows "wf s'"
  using assms
  by (cases rule: capture_step_cases)
    (auto simp: wf_defs enqueue_def setFinished_def notify_one_def notify_all_def split: if_splits list.splits)

lemma processing_step_wf:
  assumes "processing_step s = Some (e, s')" "wf s"
  shows "wf s'"
  using assms
  by (cases rule: processing_step_cases)
    (auto simp: wf_defs enqueue_def setFinished_def notify_one_def notify_all_def split: if_splits list.splits)

lemma writing_step_wf:
  assumes "writing_step s = Some (e, s')" "wf s"
  shows "wf s'"
  using assms
  by (cases rule: writing_step_cases)
    (auto simp: wf_defs enqueue_def setFinished_def notify_one_def notify_all_def split: if_splits list.splits)

lemma step_wf: "step t s = Some (e, s') \<Longrightarrow> wf s \<Longrightarrow> wf s'"
  by (cases t) (simp_all add: step_def main_step_wf capture_step_wf processing_step_wf writing_step_wf)

lemma step_setup_ok: "step t s = Some (e, s') \<Longrightarrow> setup_ok a b s \<Longrightarrow> setup_ok a b s'"
  by (cases t; simp add: step_def; erule step_elims; simp add: setup_ok_def)

lemma step_detector: "step t s = Some (e, s') \<Longrightarrow> detector s' = detector s"
  by (cases t; simp add: step_def; erule step_elims; simp)

lemma step_out: "step t s = Some (e, s') \<Longrightarrow> out s' = out s @ writes [e]"
  by (cases t; simp add: step_def; erule step_elims; simp)

lemma step_to_read: "step t s = Some (e, s') \<Longrightarrow> wf s \<Longrightarrow> to_read s = reads [e] @ to_read s'"
  by (cases t; simp add: step_def; erule step_elims; simp add: to_read_def wf_defs)

lemma step_in_flight:
  "step t s = Some (e, s') \<Longrightarrow> wf s \<Longrightarrow>
   out s' @ in_flight s' @ map (annotate (detector s')) (to_read s')
     = out s @ in_flight s @ map (annotate (detector s)) (to_read s)"
  by (cases t; simp add: step_def; erule step_elims; simp add: wf_defs in_flight_def to_read_def queue_defs)

lemma step_next_index:
  "step t s = Some (e, s') \<Longrightarrow> wf s \<Longrightarrow>
   map fst (enqueued [e]) = (if enqueued [e] = [] then [] else [next_index s])
   \<and> next_index s' = next_index s + of_nat (length (enqueued [e]))"
  by (cases t; simp add: step_def; erule step_elims; simp add: wf_defs next_index_def)

lemma step_work: "step t s = Some (e, s') \<Longrightarrow> wf s \<Longrightarrow> work s' < work s"
  by (cases t; simp add: step_def; erule step_elims; simp add: wf_defs work_def queue_defs; auto)

lemma halted_iff: "halted s \<longleftrightarrow> (\<forall>t. step t s = None)"
proof -
  have "(\<forall>t. P t) \<longleftrightarrow> P mainThread \<and> P captureThread \<and> P processingThread \<and> P writingThread" for P
    by (metis tid.exhaust)
  then show ?thesis by (auto simp: halted_def split: option.splits)
qed

lemma capture_moves:
  "capturePc s \<noteq> Capture_not_started \<Longrightarrow> capturePc s \<noteq> Capture_done \<Longrightarrow> capture_step s \<noteq> None"
  by (cases "capturePc s") (auto simp: capture_step_def split: prod.splits option.splits)

lemma processing_moves:
  "processingPc s \<noteq> Processing_not_started \<Longrightarrow> processingPc s \<noteq> Processing_done \<Longrightarrow>
   processingThread \<notin> set (c (frameQueue s)) \<Longrightarrow> processing_step s \<noteq> None"
  by (cases "processingPc s") (auto simp: processing_step_def split: prod.splits dequeue_result.splits)

lemma writing_moves:
  "writingPc s \<noteq> Writing_not_started \<Longrightarrow> writingPc s \<noteq> Writing_done \<Longrightarrow>
   writingThread \<notin> set (c (processedQueue s)) \<Longrightarrow> writing_step s \<noteq> None"
  by (cases "writingPc s") (auto simp: writing_step_def split: prod.splits dequeue_result.splits)

lemma main_moves:
  "main_step s = None \<Longrightarrow>
     (\<exists>r. mainPc s = Main_returned r)
   \<or> (mainPc s = Main_join_capture \<and> capturePc s \<noteq> Capture_done)
   \<or> (mainPc s = Main_join_processing \<and> processingPc s \<noteq> Processing_done)
   \<or> (mainPc s = Main_join_writing \<and> writingPc s \<noteq> Writing_done)"
  by (cases "mainPc s") (auto simp: main_step_def split: if_splits)

lemma halted_returned:
  assumes "wf s" "halted s"
  shows "\<exists>r. mainPc s = Main_returned r"
proof -
  from assms(2) have n: "main_step s = None" "capture_step s = None" "processing_step s = None"
    "writing_step s = None"
    unfolding halted_iff by (metis step_def tid.simps(13-16))+
  from main_moves [OF n(1)] show ?thesis
  proof (elim disjE conjE)
    assume "mainPc s = Main_join_capture" "capturePc s \<noteq> Capture_done"
    with assms(1) capture_moves [of s] n(2) show ?thesis by (auto simp: wf_defs)
  next
    assume "mainPc s = Main_join_processing" "processingPc s \<noteq> Processing_done"
    with assms(1) processing_moves [of s] n(3) show ?thesis by (auto simp: wf_defs)
  next
    assume "mainPc s = Main_join_writing" "writingPc s \<noteq> Writing_done"
    with assms(1) writing_moves [of s] n(4) show ?thesis by (auto simp: wf_defs)
  qed
qed

section \<open>Runs\<close>

lemma exec_induct [consumes 2, case_names Nil Step]:
  assumes "exec sched s = (es, s')" "wf s"
    and "\<And>s. wf s \<Longrightarrow> P s [] s"
    and "\<And>t s e s1 es s2. wf s \<Longrightarrow> step t s = Some (e, s1) \<Longrightarrow> wf s1 \<Longrightarrow> P s1 es s2 \<Longrightarrow> P s (e # es) s2"
  shows "P s es s'"
  using assms(1,2)
proof (induction sched arbitrary: s es)
  case Nil
  then show ?case using assms(3) by simp
next
  case (Cons t ts)
  show ?case
  proof (cases "step t s")
    case None
    with Cons show ?thesis by simp
  next
    case (Some p)
    obtain e s1 where p: "p = (e, s1)" by (cases p)
    obtain es1 s2 where r: "exec ts s1 = (es1, s2)" by (cases "exec ts s1")
    from Some p r Cons.prems(1) have eq: "es = e # es1" "s' = s2" by simp_all
    from Some p Cons.prems(2) have w: "wf s1" by (auto dest: step_wf)
    from r eq have r': "exec ts s1 = (es1, s')" by simp
    from Cons.IH [OF r' w] have "P s1 es1 s'" .
    with assms(4) [OF Cons.prems(2) Some [unfolded p] w] eq show ?thesis by simp
  qed
qed

lemma writes_Cons: "writes (e # es) = writes [e] @ writes es"
  by (cases e) simp_all

lemma reads_Cons: "reads (e # es) = reads [e] @ reads es"
proof (cases e)
  case (Read r)
  then show ?thesis by (cases r) simp_all
qed simp_all

lemma enqueued_Cons: "enqueued (e # es) = enqueued [e] @ enqueued es"
  by (cases e) simp_all

lemma exec_wf: "exec sched s = (es, s') \<Longrightarrow> wf s \<Longrightarrow> wf s'"
  by (induction rule: exec_induct) simp_all

lemma exec_setup_ok: "exec sched s = (es, s') \<Longrightarrow> wf s \<Longrightarrow> setup_ok a b s \<Longrightarrow> setup_ok a b s'"
  by (induction rule: exec_induct) (simp_all add: step_setup_ok)

lemma exec_detector: "exec sched s = (es, s') \<Longrightarrow> wf s \<Longrightarrow> detector s' = detector s"
  by (induction rule: exec_induct) (simp_all add: step_detector)

lemma exec_out: "exec sched s = (es, s') \<Longrightarrow> wf s \<Longrightarrow> out s' = out s @ writes es"
proof (induction rule: exec_induct)
  case (Step t s e s1 es s2)
  then show ?case using step_out [of t s e s1] writes_Cons [of e es] by simp
qed simp

lemma exec_to_read: "exec sched s = (es, s') \<Longrightarrow> wf s \<Longrightarrow> to_read s = reads es @ to_read s'"
proof (induction rule: exec_induct)
  case (Step t s e s1 es s2)
  then show ?case using step_to_read [of t s e s1] reads_Cons [of e es] by simp
qed simp

lemma exec_in_flight:
  "exec sched s = (es, s') \<Longrightarrow> wf s \<Longrightarrow>
   out s' @ in_flight s' @ map (annotate (detector s')) (to_read s')
     = out s @ in_flight s @ map (annotate (detector s)) (to_read s)"
proof (induction rule: exec_induct)
  case (Step t s e s1 es s2)
  then show ?case using step_in_flight [of t s e s1] by simp
qed simp

lemma exec_next_index:
  "exec sched s = (es, s') \<Longrightarrow> wf s \<Longrightarrow>
   map fst (enqueued es) = map (\<lambda>k. next_index s + of_nat k) [0..<length (enqueued es)]
   \<and> next_index s' = next_index s + of_nat (length (enqueued es))"
proof (induction rule: exec_induct)
  case (Step t s e s1 es s2)
  note st = step_next_index [OF Step(2,1)]
  show ?case
  proof (cases "enqueued [e]")
    case Nil
    with st Step(4) show ?thesis using enqueued_Cons [of e es] by simp
  next
    case (Cons p ps)
    with st have one: "enqueued [e] = [p]" "fst p = next_index s" "next_index s1 = next_index s + 1"
      by (cases ps; simp)+
    have "map (\<lambda>k. next_index s + of_nat k) [0..<Suc n]
          = next_index s # map (\<lambda>k. next_index s + 1 + of_nat k) [0..<n]" for n
      by (simp add: upt_conv_Cons map_Suc_upt [symmetric] add.assoc add.commute del: upt_Suc)
    with one Step(4) show ?thesis using enqueued_Cons [of e es] by (simp add: add.assoc)
  qed
qed simp

lemma exec_work: "exec sched s = (es, s') \<Longrightarrow> wf s \<Longrightarrow> length es + work s' \<le> work s"
proof (induction rule: exec_induct)
  case (Step t s e s1 es s2)
  then show ?case using step_work [of t s e s1] by simp
qed simp

lemma terminates_wf: "wf s \<Longrightarrow> terminates s"
proof (induction "work s" arbitrary: s rule: less_induct)
  case less
  show ?case
  proof (rule terminates.intros)
    fix t e s'
    assume "step t s = Some (e, s')"
    with less.prems show "terminates s'"
      by (intro less.hyps) (auto dest: step_work step_wf)
  qed
qed

lemma exec_append:
  "exec (xs @ ys) s = (case exec xs s of (es1, s1) \<Rightarrow> case exec ys s1 of (es2, s2) \<Rightarrow> (es1 @ es2, s2))"
  by (induction xs arbitrary: s) (auto split: option.splits prod.splits)

lemma can_complete: "wf s \<Longrightarrow> \<exists>more. halted (snd (exec more s))"
proof (induction "work s" arbitrary: s rule: less_induct)
  case less
  show ?case
  proof (cases "halted s")
    case True
    then have "halted (snd (exec [] s))" by simp
    then show ?thesis by blast
  next
    case False
    then obtain t e s' where st: "step t s = Some (e, s')"
      unfolding halted_iff by auto
    with less.prems have "work s' < work s" "wf s'" by (auto dest: step_work step_wf)
    from less.hyps [OF this] obtain more where "halted (snd (exec more s'))" by blast
    with st have "halted (snd (exec (t # more) s))" by (cases "exec more s'") simp
    then show ?thesis by blast
  qed
qed

subsection \<open>Runs from the initial state\<close>

lemma read_calls_Cons: "read_calls (e # es) = read_calls [e] + read_calls es"
  by (cases e) simp_all

lemma starts_Cons: "starts (e # es) = starts [e] @ starts es"
  by (cases e) simp_all

lemma returned_in_flight:
  assumes "wf s" "mainPc s = Main_returned r"
  shows "in_flight s = []"
proof (cases "r = 0")
  case True
  with assms have "capturePc s = Capture_done" "processingPc s = Processing_done"
    "writingPc s = Writing_done"
    by (simp_all add: wf_defs)
  with assms(1) show ?thesis by (simp add: wf_defs in_flight_def)
next
  case False
  with assms have "capturePc s = Capture_not_started" "processingPc s = Processing_not_started"
    "writingPc s = Writing_not_started"
    by (simp_all add: wf_defs)
  with assms(1) show ?thesis by (simp add: wf_defs in_flight_def)
qed

lemma init_simps:
  "out (init d a b src) = []" "in_flight (init d a b src) = []"
  "to_read (init d a b src) = yielded src" "detector (init d a b src) = d"
  "next_index (init d a b src) = 0" "cap (init d a b src) = src"
  by (simp_all add: init_def in_flight_def to_read_def next_index_def SafeQueue_new_def)

lemma run_pipeline:
  assumes "exec sched (init d a b src) = (es, s)"
  shows "out s = writes es" "yielded src = reads es @ to_read s"
    "writes es @ in_flight s = map (annotate d) (reads es)"
proof -
  note w = wf_init [of d a b src]
  from exec_out [OF assms w] show o: "out s = writes es" by (simp add: init_simps)
  from exec_to_read [OF assms w] show r: "yielded src = reads es @ to_read s"
    by (simp add: init_simps)
  from exec_in_flight [OF assms w] exec_detector [OF assms w]
  have "out s @ in_flight s @ map (annotate d) (to_read s) = map (annotate d) (yielded src)"
    by (simp add: init_simps)
  with o r show "writes es @ in_flight s = map (annotate d) (reads es)" by simp
qed

lemma run_completes:
  "terminates (init d a b src)"
  "\<exists>more. halted (snd (exec (sched @ more) (init d a b src)))"
proof -
  show "terminates (init d a b src)" by (rule terminates_wf [OF wf_init])
  obtain es s where r: "exec sched (init d a b src) = (es, s)"
    by (cases "exec sched (init d a b src)")
  from exec_wf [OF r wf_init] can_complete obtain more where "halted (snd (exec more s))"
    by blast
  with r have "halted (snd (exec (sched @ more) (init d a b src)))"
    by (cases "exec more s") (simp add: exec_append)
  then show "\<exists>more. halted (snd (exec (sched @ more) (init d a b src)))" ..
qed

lemma run_halted:
  assumes "exec sched (init d a b src) = (es, s)" "halted s"
  shows "in_flight s = []"
    "a \<and> b \<Longrightarrow> mainPc s = Main_returned 0"
    "\<not> (a \<and> b) \<Longrightarrow> mainPc s = Main_returned (- 1)"
proof -
  note w = exec_wf [OF assms(1) wf_init]
  from halted_returned [OF w assms(2)] obtain r where r: "mainPc s = Main_returned r" ..
  from returned_in_flight [OF w r] show "in_flight s = []" .
  from exec_setup_ok [OF assms(1) wf_init setup_ok_init] r
  have "r = 0 \<or> r = - 1 \<and> \<not> (a \<and> b)" "r = 0 \<longrightarrow> a \<and> b"
    by (simp_all add: setup_ok_def)
  with r show "a \<and> b \<Longrightarrow> mainPc s = Main_returned 0"
    "\<not> (a \<and> b) \<Longrightarrow> mainPc s = Main_returned (- 1)" by auto
qed

lemma returned_0_done:
  assumes "wf s" "mainPc s = Main_returned 0"
  shows "capturePc s = Capture_done" "processingPc s = Processing_done"
    "writingPc s = Writing_done" "finished (frameQueue s)" "finished (processedQueue s)"
    "to_read s = []"
  using assms by (simp_all add: wf_defs to_read_def)

lemma step_setup_phase:
  "step t s = Some (e, s') \<Longrightarrow> wf s \<Longrightarrow> main_rank (mainPc s) \<le> 1 \<Longrightarrow>
   read_calls [e] = 0 \<and> writes [e] = [] \<and> starts [e] = [] \<and> cap s' = cap s"
  by (cases t; simp add: step_def; erule step_elims; simp add: wf_defs)

lemma exec_setup_phase:
  "exec sched s = (es, s') \<Longrightarrow> wf s \<Longrightarrow> setup_ok a b s \<Longrightarrow> \<not> (a \<and> b) \<Longrightarrow>
   read_calls es = 0 \<and> writes es = [] \<and> starts es = [] \<and> cap s' = cap s"
proof (induction rule: exec_induct)
  case (Step t s e s1 es s2)
  from Step.prems have "main_rank (mainPc s) \<le> 1" by (auto simp: setup_ok_def)
  from step_setup_phase [OF Step(2,1) this] Step.IH Step.prems step_setup_ok [OF Step(2)]
  show ?case
    using read_calls_Cons [of e es] writes_Cons [of e es] starts_Cons [of e es] by simp
qed simp

subsection \<open>The indices of the processing thread\<close>

lemma sint_index: "k < 2 ^ 31 \<Longrightarrow> sint (of_nat k :: 32 word) = int k"
proof -
  assume "k < 2 ^ 31"
  then have "int k < 2 ^ 31" by (metis of_nat_less_iff of_nat_numeral of_nat_power)
  then have "signed_take_bit 31 (int k) = int k"
    by (intro signed_take_bit_int_eq_self) simp_all
  moreover have "(of_nat k :: 32 word) = word_of_int (int k)" by simp
  ultimately show ?thesis by (simp only: sint_sbintrunc') simp
qed

lemma sint_index_wraps: "sint (of_nat (2 ^ 31) :: 32 word) = - (2 ^ 31)"
  by simp

lemma run_indices:
  assumes "exec sched (init d a b src) = (es, s)" "k < length (enqueued es)"
  shows "fst (enqueued es ! k) = of_nat k"
proof -
  from exec_next_index [OF assms(1) wf_init]
  have "map fst (enqueued es) = map of_nat [0..<length (enqueued es)]"
    by (simp add: init_simps)
  then have "map fst (enqueued es) ! k = map of_nat [0..<length (enqueued es)] ! k" by simp
  with assms(2) show ?thesis by simp
qed

lemma enqueued_append: "enqueued (xs @ ys) = enqueued xs @ enqueued ys"
proof (induction xs)
  case (Cons e xs)
  then show ?case using enqueued_Cons [of e "xs @ ys"] enqueued_Cons [of e xs] by simp
qed simp

lemma one_frame_run:
  assumes "between_frames s" "cap s = Frame f # rest"
  shows "\<exists>es s1. exec one_frame s = (es, s1) \<and> between_frames s1 \<and> cap s1 = rest
           \<and> length (enqueued es) = 1"
  using assms
  by (simp add: one_frame_def between_frames_def step_def capture_step_def processing_step_def
      writing_step_def read_def dequeue_def enqueue_def)

lemma frames_run:
  "between_frames s \<Longrightarrow> cap s = replicate n (Frame f) @ rest \<Longrightarrow>
   length (enqueued (fst (exec (concat (replicate n one_frame)) s))) = n"
proof (induction n arbitrary: s)
  case 0
  then show ?case by simp
next
  case (Suc n)
  from Suc.prems have "cap s = Frame f # replicate n (Frame f) @ rest" by simp
  from one_frame_run [OF Suc.prems(1) this] obtain es s1 where
    r: "exec one_frame s = (es, s1)" "between_frames s1" "cap s1 = replicate n (Frame f) @ rest"
    "length (enqueued es) = 1"
    by blast
  from Suc.IH [OF r(2,3)] r(1,4) show ?case
    by (simp add: exec_append enqueued_append case_prod_unfold)
qed

lemma setup_run:
  "\<exists>es s. exec (replicate 5 mainThread) (init d True True src) = (es, s)
     \<and> between_frames s \<and> cap s = src \<and> enqueued es = []"
  by (simp add: eval_nat_numeral init_def step_def main_step_def between_frames_def
      SafeQueue_new_def)

lemma frame_by_frame_run:
  "length (enqueued (fst (exec (frame_by_frame n) (init d True True (replicate n (Frame f))))))
     = n"
proof -
  from setup_run [of d "replicate n (Frame f)"] obtain es s where
    r: "exec (replicate 5 mainThread) (init d True True (replicate n (Frame f))) = (es, s)"
    "between_frames s" "cap s = replicate n (Frame f)" "enqueued es = []"
    by blast
  from r(3) have "cap s = replicate n (Frame f) @ []" by simp
  from frames_run [OF r(2) this] r(1,4) show ?thesis
    by (simp add: frame_by_frame_def exec_append enqueued_append case_prod_unfold)
qed

subsection \<open>The flag \<open>processingDone\<close>\<close>

lemma main_step_processingDone:
  "map_option (apsnd (processingDone_update (\<lambda>_. x))) (main_step (s\<lparr>processingDone := b\<rparr>))
   = map_option (apsnd (processingDone_update (\<lambda>_. x))) (main_step s)"
  by (cases "mainPc s";
      simp add: main_step_def split: capture_pc.splits processing_pc.splits writing_pc.splits)

lemma capture_step_processingDone:
  "map_option (apsnd (processingDone_update (\<lambda>_. x))) (capture_step (s\<lparr>processingDone := b\<rparr>))
   = map_option (apsnd (processingDone_update (\<lambda>_. x))) (capture_step s)"
  by (cases "capturePc s"; rule read_cases [of "cap s"]; simp add: capture_step_def)

lemma processing_step_processingDone:
  "map_option (apsnd (processingDone_update (\<lambda>_. x))) (processing_step (s\<lparr>processingDone := b\<rparr>))
   = map_option (apsnd (processingDone_update (\<lambda>_. x))) (processing_step s)"
  by (cases "processingPc s"; rule dequeue_cases [of "frameQueue s" processingThread];
      simp add: processing_step_def)

lemma writing_step_processingDone:
  "map_option (apsnd (processingDone_update (\<lambda>_. x))) (writing_step (s\<lparr>processingDone := b\<rparr>))
   = map_option (apsnd (processingDone_update (\<lambda>_. x))) (writing_step s)"
  by (cases "writingPc s"; rule dequeue_cases [of "processedQueue s" writingThread];
      simp add: writing_step_def)

lemma step_processingDone:
  "map_option (apsnd (processingDone_update (\<lambda>_. x))) (step t (s\<lparr>processingDone := b\<rparr>))
   = map_option (apsnd (processingDone_update (\<lambda>_. x))) (step t s)"
  by (cases t)
    (simp_all add: step_def main_step_processingDone capture_step_processingDone
      processing_step_processingDone writing_step_processingDone)

lemma stage_keeps_processingDone:
  "step t s = Some (e, s') \<Longrightarrow> t \<noteq> mainThread \<Longrightarrow> processingDone s' = processingDone s"
  by (cases t; simp add: step_def; erule step_elims; simp)

lemma step_processingDone_False:
  "step t s = Some (e, s') \<Longrightarrow> \<not> processingDone s \<Longrightarrow> \<not> processingDone s'"
  by (cases t; simp add: step_def; erule step_elims; simp)

lemma exec_processingDone:
  "s1\<lparr>processingDone := x\<rparr> = s2\<lparr>processingDone := x\<rparr> \<Longrightarrow>
   fst (exec sched s1) = fst (exec sched s2)
   \<and> (snd (exec sched s1))\<lparr>processingDone := x\<rparr> = (snd (exec sched s2))\<lparr>processingDone := x\<rparr>"
proof (induction sched arbitrary: s1 s2)
  case Nil
  then show ?case by simp
next
  case (Cons t ts)
  have "s2 = (s2\<lparr>processingDone := x\<rparr>)\<lparr>processingDone := processingDone s2\<rparr>" by simp
  also have "\<dots> = s1\<lparr>processingDone := processingDone s2\<rparr>"
    by (simp add: Cons.prems [symmetric])
  finally have s2: "s2 = s1\<lparr>processingDone := processingDone s2\<rparr>" .
  from step_processingDone [where x = x and t = t and s = s1 and b = "processingDone s2"] s2
  have eq: "map_option (apsnd (processingDone_update (\<lambda>_. x))) (step t s2)
          = map_option (apsnd (processingDone_update (\<lambda>_. x))) (step t s1)"
    by simp
  show ?case
  proof (cases "step t s1")
    case None
    with eq have "step t s2 = None" by simp
    with None Cons.IH [OF Cons.prems] show ?thesis by simp
  next
    case (Some p1)
    with eq obtain p2 where p2: "step t s2 = Some p2" by (cases "step t s2") simp_all
    obtain e1 s1' where p1: "p1 = (e1, s1')" by (cases p1)
    obtain e2 s2' where p2': "p2 = (e2, s2')" by (cases p2)
    from eq Some p2 p1 p2' have r: "e1 = e2" "s1'\<lparr>processingDone := x\<rparr> = s2'\<lparr>processingDone := x\<rparr>"
      by simp_all
    from Cons.IH [OF r(2)] Some p2 p1 p2' r(1) show ?thesis
      by (simp add: case_prod_unfold)
  qed
qed

lemma exec_processingDone_False:
  "\<not> processingDone s \<Longrightarrow> \<not> processingDone (snd (exec sched s))"
proof (induction sched arbitrary: s)
  case Nil
  then show ?case by simp
next
  case (Cons t ts)
  show ?case
  proof (cases "step t s")
    case None
    with Cons show ?thesis by simp
  next
    case (Some p)
    obtain e s' where p: "p = (e, s')" by (cases p)
    from step_processingDone_False [OF Some [unfolded p] Cons.prems]
    have "\<not> processingDone (snd (exec ts s'))" by (rule Cons.IH)
    with Some p show ?thesis by (simp add: case_prod_unfold)
  qed
qed

lemma flag_values_False:
  "\<not> processingDone s \<Longrightarrow> True \<notin> set (flag_values sched s)"
proof (induction sched arbitrary: s)
  case Nil
  then show ?case by simp
next
  case (Cons t ts)
  show ?case
  proof (cases "step t s")
    case None
    with Cons show ?thesis by simp
  next
    case (Some p)
    obtain e s' where p: "p = (e, s')" by (cases p)
    from step_processingDone_False [OF Some [unfolded p] Cons.prems]
    have "True \<notin> set (flag_values ts s')" by (rule Cons.IH)
    with Some p Cons.prems show ?thesis by simp
  qed
qed

subsection \<open>Sources that yield the same frames\<close>

lemma yielded_frames: "yielded (map Frame fs @ ReadError # rest) = fs" "yielded (map Frame fs) = fs"
  by (induction fs) simp_all

lemma yielded_eq_Cons:
  "yielded x = f # ys \<Longrightarrow> \<exists>rest'. x = Frame f # rest' \<and> yielded rest' = ys"
  by (induction x rule: yielded.induct) simp_all

lemma yielded_eq_Nil: "yielded x = [] \<Longrightarrow> fst (read x) = None"
  by (induction x rule: yielded.induct) (simp_all add: read_def)

lemma finishes_Cons: "finishes (e # es) = finishes [e] + finishes es"
  by (cases e) simp_all

lemma step_counts:
  "step t s = Some (e, s') \<Longrightarrow> wf s \<Longrightarrow>
   read_calls [e] + reads_left (capturePc s') (cap s') = reads_left (capturePc s) (cap s)
   \<and> finishes [e] + finishes_left (capturePc s') = finishes_left (capturePc s)"
  by (cases t; simp add: step_def; erule step_elims; simp add: wf_defs)

lemma exec_counts:
  "exec sched s = (es, s') \<Longrightarrow> wf s \<Longrightarrow>
   read_calls es + reads_left (capturePc s') (cap s') = reads_left (capturePc s) (cap s)
   \<and> finishes es + finishes_left (capturePc s') = finishes_left (capturePc s)"
proof (induction rule: exec_induct)
  case (Step t s e s1 es s2)
  with step_counts [OF Step(2,1)] show ?case
    using read_calls_Cons [of e es] finishes_Cons [of e es] by simp
qed simp

lemma main_step_cap_eq:
  "main_step (s\<lparr>cap := x\<rparr>) = map_option (apsnd (cap_update (\<lambda>_. x))) (main_step s)"
  by (cases "mainPc s";
      simp add: main_step_def split: capture_pc.splits processing_pc.splits writing_pc.splits)

lemma processing_step_cap_eq:
  "processing_step (s\<lparr>cap := x\<rparr>) = map_option (apsnd (cap_update (\<lambda>_. x))) (processing_step s)"
  by (cases "processingPc s"; rule dequeue_cases [of "frameQueue s" processingThread];
      simp add: processing_step_def)

lemma writing_step_cap_eq:
  "writing_step (s\<lparr>cap := x\<rparr>) = map_option (apsnd (cap_update (\<lambda>_. x))) (writing_step s)"
  by (cases "writingPc s"; rule dequeue_cases [of "processedQueue s" writingThread];
      simp add: writing_step_def)

lemma step_None_cap: "step t s = None \<Longrightarrow> step t (s\<lparr>cap := x\<rparr>) = None"
proof (cases t)
  case captureThread
  assume "step t s = None"
  with captureThread have "capture_step s = None" by (simp add: step_def)
  with capture_moves [of s] have "capturePc s = Capture_not_started \<or> capturePc s = Capture_done"
    by blast
  with captureThread show ?thesis by (auto simp: step_def capture_step_def)
qed (simp_all add: step_def main_step_cap_eq processing_step_cap_eq writing_step_cap_eq)

lemma capture_step_cap:
  assumes "capture_step s = Some (e, s')"
    "still_to_read (capturePc s) x = still_to_read (capturePc s) (cap s)"
  shows "\<exists>x'. capture_step (s\<lparr>cap := x\<rparr>) = Some (e, s'\<lparr>cap := x'\<rparr>)
           \<and> still_to_read (capturePc s') x' = still_to_read (capturePc s') (cap s')"
  using assms(1)
proof (cases rule: capture_step_cases)
  case (read_frame f rest)
  with assms(2) have "yielded x = f # yielded rest" by simp
  from yielded_eq_Cons [OF this] obtain rest' where "x = Frame f # rest'" "yielded rest' = yielded rest"
    by blast
  with read_frame have "capture_step (s\<lparr>cap := x\<rparr>) = Some (e, s'\<lparr>cap := rest'\<rparr>)
     \<and> still_to_read (capturePc s') rest' = still_to_read (capturePc s') (cap s')"
    by (simp add: capture_step_def read_def)
  then show ?thesis ..
next
  case (read_error rest)
  with assms(2) have "yielded x = []" by simp
  from yielded_eq_Nil [OF this] obtain r where "read x = (None, r)" by (cases "read x") simp
  with read_error have "capture_step (s\<lparr>cap := x\<rparr>) = Some (e, s'\<lparr>cap := r\<rparr>)
     \<and> still_to_read (capturePc s') r = still_to_read (capturePc s') (cap s')"
    by (simp add: capture_step_def)
  then show ?thesis ..
next
  case read_end
  with assms(2) have "yielded x = []" by simp
  from yielded_eq_Nil [OF this] obtain r where "read x = (None, r)" by (cases "read x") simp
  with read_end have "capture_step (s\<lparr>cap := x\<rparr>) = Some (e, s'\<lparr>cap := r\<rparr>)
     \<and> still_to_read (capturePc s') r = still_to_read (capturePc s') (cap s')"
    by (simp add: capture_step_def)
  then show ?thesis ..
next
  case (enqueue f)
  with assms(2) have "capture_step (s\<lparr>cap := x\<rparr>) = Some (e, s'\<lparr>cap := x\<rparr>)
     \<and> still_to_read (capturePc s') x = still_to_read (capturePc s') (cap s')"
    by (simp add: capture_step_def)
  then show ?thesis ..
next
  case setFinished
  then have "capture_step (s\<lparr>cap := x\<rparr>) = Some (e, s'\<lparr>cap := x\<rparr>)
     \<and> still_to_read (capturePc s') x = still_to_read (capturePc s') (cap s')"
    by (simp add: capture_step_def)
  then show ?thesis ..
qed

lemma other_step_to_read:
  "step t s = Some (e, s') \<Longrightarrow> t \<noteq> captureThread \<Longrightarrow> wf s \<Longrightarrow>
   still_to_read (capturePc s) x = still_to_read (capturePc s) (cap s) \<Longrightarrow>
   still_to_read (capturePc s') x = still_to_read (capturePc s') (cap s')"
  by (cases t; simp add: step_def; erule step_elims; simp add: wf_defs)

lemma step_cap:
  assumes "step t s = Some (e, s')" "wf s"
    "still_to_read (capturePc s) x = still_to_read (capturePc s) (cap s)"
  shows "\<exists>x'. step t (s\<lparr>cap := x\<rparr>) = Some (e, s'\<lparr>cap := x'\<rparr>)
           \<and> still_to_read (capturePc s') x' = still_to_read (capturePc s') (cap s')"
proof (cases "t = captureThread")
  case True
  with assms capture_step_cap [of s e s' x] show ?thesis by (simp add: step_def)
next
  case False
  from other_step_to_read [OF assms(1) False assms(2,3)]
  have r: "still_to_read (capturePc s') x = still_to_read (capturePc s') (cap s')" .
  from False assms(1) have "step t (s\<lparr>cap := x\<rparr>) = Some (e, s'\<lparr>cap := x\<rparr>)"
    by (cases t) (simp_all add: step_def main_step_cap_eq processing_step_cap_eq writing_step_cap_eq)
  with r show ?thesis by blast
qed

lemma exec_cap:
  "wf s \<Longrightarrow> still_to_read (capturePc s) x = still_to_read (capturePc s) (cap s) \<Longrightarrow>
   \<exists>x'. exec sched (s\<lparr>cap := x\<rparr>) = (fst (exec sched s), (snd (exec sched s))\<lparr>cap := x'\<rparr>)"
proof (induction sched arbitrary: s x)
  case Nil
  then show ?case by auto
next
  case (Cons t ts)
  show ?case
  proof (cases "step t s")
    case None
    from step_None_cap [OF None, of x] None Cons.IH [OF Cons.prems] show ?thesis by simp
  next
    case (Some p)
    obtain e s' where p: "p = (e, s')" by (cases p)
    from step_cap [OF Some [unfolded p] Cons.prems] obtain x' where
      x': "step t (s\<lparr>cap := x\<rparr>) = Some (e, s'\<lparr>cap := x'\<rparr>)"
      "still_to_read (capturePc s') x' = still_to_read (capturePc s') (cap s')"
      by blast
    from step_wf [OF Some [unfolded p] Cons.prems(1)] have "wf s'" .
    from Cons.IH [OF this x'(2)] obtain x'' where
      "exec ts (s'\<lparr>cap := x'\<rparr>) = (fst (exec ts s'), (snd (exec ts s'))\<lparr>cap := x''\<rparr>)"
      by blast
    with Some p x'(1) show ?thesis by (intro exI [of _ x'']) (simp add: case_prod_unfold)
  qed
qed

lemma same_yield_same_run:
  assumes "yielded src1 = yielded src2"
  shows "fst (exec sched (init d a b src1)) = fst (exec sched (init d a b src2))"
    "(snd (exec sched (init d a b src1)))\<lparr>cap := []\<rparr> = (snd (exec sched (init d a b src2)))\<lparr>cap := []\<rparr>"
proof -
  have i: "init d a b src1 = (init d a b src2)\<lparr>cap := src1\<rparr>" by (simp add: init_def)
  have "still_to_read (capturePc (init d a b src2)) src1
      = still_to_read (capturePc (init d a b src2)) (cap (init d a b src2))"
    using assms by (simp add: init_def)
  from exec_cap [OF wf_init this, of sched] obtain x' where
    "exec sched (init d a b src1)
       = (fst (exec sched (init d a b src2)), (snd (exec sched (init d a b src2)))\<lparr>cap := x'\<rparr>)"
    unfolding i [symmetric] by blast
  then show "fst (exec sched (init d a b src1)) = fst (exec sched (init d a b src2))"
    "(snd (exec sched (init d a b src1)))\<lparr>cap := []\<rparr> = (snd (exec sched (init d a b src2)))\<lparr>cap := []\<rparr>"
    by simp_all
qed

section \<open>Properties of the queue\<close>

lemma dequeues_drain:
  "dequeues (length (q sq)) me sq = (map Returned_true (q sq), sq\<lparr>q := []\<rparr>)"
proof (induction "q sq" arbitrary: sq)
  case Nil
  then show ?case by simp
next
  case (Cons x xs)
  from Cons.hyps(2) have d: "dequeue me sq = (Returned_true x, sq\<lparr>q := xs\<rparr>)"
    by (cases "q sq") (simp_all add: dequeue_def)
  have "xs = q (sq\<lparr>q := xs\<rparr>)" by simp
  from Cons.hyps(1) [OF this] Cons.hyps(2) [symmetric] d show ?case by simp
qed

lemma q_fold_enqueue: "q (fold enqueue xs sq) = q sq @ xs"
  by (induction xs arbitrary: sq) (simp_all add: enqueue_def)

text \<open>
  C2.  Whatever the state of the queue: when it is not empty, \<open>dequeue\<close> returns true
  with the head item and removes it, also when \<open>finished\<close> is set; it returns false (end
  of stream) exactly when the queue is empty and \<open>finished\<close> is set, so never while an
  item is queued.  The head is the oldest item: the items queued and those enqueued
  after them come out in that order.
\<close>

theorem dequeue_head_or_end_of_stream:
  "(q sq \<noteq> [] \<longrightarrow> dequeue me sq = (Returned_true (hd (q sq)), sq\<lparr>q := tl (q sq)\<rparr>))
   \<and> (fst (dequeue me sq) = Returned_false \<longleftrightarrow> q sq = [] \<and> finished sq)
   \<and> fst (dequeues (length (q sq @ xs)) me (fold enqueue xs sq)) = map Returned_true (q sq @ xs)"
proof (intro conjI)
  show "q sq \<noteq> [] \<longrightarrow> dequeue me sq = (Returned_true (hd (q sq)), sq\<lparr>q := tl (q sq)\<rparr>)"
    by (cases "q sq") (simp_all add: dequeue_def)
  show "fst (dequeue me sq) = Returned_false \<longleftrightarrow> q sq = [] \<and> finished sq"
    by (cases "q sq") (simp_all add: dequeue_def)
  show "fst (dequeues (length (q sq @ xs)) me (fold enqueue xs sq)) = map Returned_true (q sq @ xs)"
    using dequeues_drain [of "fold enqueue xs sq" me] by (simp add: q_fold_enqueue)
qed

theorem dequeue_head_or_end_of_stream_witness:
  "q \<lparr>q = [1::nat, 2], c = [], finished = True\<rparr> \<noteq> []
   \<and> dequeue writingThread \<lparr>q = [1::nat, 2], c = [], finished = True\<rparr>
       = (Returned_true 1, \<lparr>q = [2], c = [], finished = True\<rparr>)
   \<and> fst (dequeue writingThread \<lparr>q = [] :: nat list, c = [], finished = True\<rparr>) = Returned_false"
  using dequeue_head_or_end_of_stream [of "\<lparr>q = [1::nat, 2], c = [], finished = True\<rparr>" writingThread "[]"]
    dequeue_head_or_end_of_stream [of "\<lparr>q = [] :: nat list, c = [], finished = True\<rparr>" writingThread "[]"]
  by simp

text \<open>
  C5.  On an empty queue whose \<open>finished\<close> is set, and so on an empty queue after
  \<open>setFinished\<close>, \<open>dequeue\<close> returns false in its first pass: the caller does not enter
  \<open>c.wait\<close>, and the queue is left as it was.
\<close>

theorem dequeue_after_setFinished_on_empty:
  "(q sq = [] \<and> finished sq \<longrightarrow> dequeue me sq = (Returned_false, sq))
   \<and> (q sq = [] \<longrightarrow> dequeue me (setFinished sq) = (Returned_false, setFinished sq))"
  by (simp add: dequeue_def setFinished_def)

theorem dequeue_after_setFinished_on_empty_witness:
  "q (SafeQueue_new :: nat SafeQueue) = []
   \<and> dequeue processingThread (setFinished (SafeQueue_new :: nat SafeQueue))
       = (Returned_false, \<lparr>q = [], c = [], finished = True\<rparr>)"
  using dequeue_after_setFinished_on_empty [of "SafeQueue_new :: nat SafeQueue" processingThread]
  by (simp add: SafeQueue_new_def setFinished_def notify_all_def)

lemma setFinished_idem: "setFinished (setFinished sq) = setFinished sq"
  by (simp add: setFinished_def notify_all_def)

lemma setFinished_funpow: "(setFinished ^^ Suc n) sq = setFinished sq"
  by (induction n) (simp_all add: setFinished_idem)

text \<open>
  C6.  \<open>setFinished\<close> called \<open>n + 1\<close> times leaves the queue in the state one call
  leaves it in; after it \<open>finished\<close> is set, and no operation of the queue clears a
  \<open>finished\<close> that is set.
\<close>

theorem setFinished_idempotent_monotonic:
  "(setFinished ^^ Suc n) sq = setFinished sq
   \<and> finished (setFinished sq)
   \<and> (finished sq \<longrightarrow>
        finished (enqueue x sq) \<and> finished (snd (dequeue me sq)) \<and> finished (setFinished sq))"
proof (intro conjI impI)
  show "(setFinished ^^ Suc n) sq = setFinished sq" by (rule setFinished_funpow)
  show "finished (setFinished sq)" "finished (setFinished sq)" by (simp_all add: setFinished_def)
  show "finished (enqueue x sq)" if "finished sq" using that by (simp add: enqueue_def)
  show "finished (snd (dequeue me sq))" if "finished sq"
    using that by (cases "q sq") (simp_all add: dequeue_def)
qed

theorem setFinished_idempotent_monotonic_witness:
  "(setFinished ^^ 3) \<lparr>q = [7::nat], c = [writingThread], finished = False\<rparr>
     = \<lparr>q = [7], c = [], finished = True\<rparr>
   \<and> finished \<lparr>q = [7::nat], c = [], finished = True\<rparr>
   \<and> finished (enqueue 8 \<lparr>q = [7::nat], c = [], finished = True\<rparr>)
   \<and> finished (snd (dequeue writingThread \<lparr>q = [7::nat], c = [], finished = True\<rparr>))"
  using setFinished_idempotent_monotonic [of 2 "\<lparr>q = [7::nat], c = [writingThread], finished = False\<rparr>"]
    setFinished_idempotent_monotonic [of 0 "\<lparr>q = [7::nat], c = [], finished = True\<rparr>" 8 writingThread]
  by (simp add: setFinished_def notify_all_def numeral_3_eq_3)

text \<open>
  C10.  \<open>enqueue\<close> after \<open>setFinished\<close> appends the item at the tail as it always does.
  The next \<open>dequeue\<close> returns true with the head of the queue, not end of stream; on a
  queue that was empty the head is the item just enqueued, and in general the item comes
  out, after the items queued before it, at the last of \<open>length (q sq) + 1\<close> calls.
\<close>

theorem enqueue_after_setFinished:
  "q (enqueue x (setFinished sq)) = q sq @ [x]
   \<and> finished (enqueue x (setFinished sq))
   \<and> fst (dequeue me (enqueue x (setFinished sq))) = Returned_true (hd (q sq @ [x]))
   \<and> (q sq = [] \<longrightarrow> fst (dequeue me (enqueue x (setFinished sq))) = Returned_true x)
   \<and> fst (dequeues (Suc (length (q sq))) me (enqueue x (setFinished sq)))
       = map Returned_true (q sq) @ [Returned_true x]"
proof -
  let ?sq = "enqueue x (setFinished sq)"
  have eq: "q ?sq = q sq @ [x]" by (simp add: enqueue_def setFinished_def)
  have "fst (dequeue me ?sq) = Returned_true (hd (q sq @ [x]))"
    using eq by (cases "q sq") (simp_all add: dequeue_def)
  moreover have "fst (dequeues (Suc (length (q sq))) me ?sq) = map Returned_true (q sq) @ [Returned_true x]"
    using dequeues_drain [of ?sq me] by (simp add: eq)
  moreover have "finished ?sq" by (simp add: enqueue_def setFinished_def)
  ultimately show ?thesis using eq by simp
qed

theorem enqueue_after_setFinished_witness:
  "q (setFinished (SafeQueue_new :: nat SafeQueue)) = []
   \<and> fst (dequeue writingThread (enqueue 5 (setFinished (SafeQueue_new :: nat SafeQueue)))) = Returned_true 5"
  using enqueue_after_setFinished [of 5 "SafeQueue_new :: nat SafeQueue" writingThread]
  by (simp add: SafeQueue_new_def setFinished_def)

section \<open>Properties of the pipeline\<close>

text \<open>
  C1.  Every run of the program is finite and can be completed.  At any moment of any
  run the frames written to the sink are, in order, the annotated frames of a prefix of
  the frames read; once no thread can move, the writes are exactly the annotated reads,
  one write for each frame read and in the order of reading, whatever the schedule.
  When source and sink were open, the frames read are all those the source yields.
\<close>

theorem frames_written_in_order:
  "terminates (init d a b src)
   \<and> (\<exists>more. halted (snd (exec (sched @ more) (init d a b src))))
   \<and> (case exec sched (init d a b src) of (es, s) \<Rightarrow>
        out s = writes es
        \<and> take (length (writes es)) (map (annotate d) (reads es)) = writes es
        \<and> (halted s \<longrightarrow>
             writes es = map (annotate d) (reads es) \<and> length (writes es) = length (reads es))
        \<and> (halted s \<and> a \<and> b \<longrightarrow> reads es = yielded src))"
proof -
  obtain es s where r: "exec sched (init d a b src) = (es, s)"
    by (cases "exec sched (init d a b src)")
  note p = run_pipeline [OF r]
  from p(3) have "take (length (writes es)) (map (annotate d) (reads es)) = writes es"
    by (metis append_eq_conv_conj)
  moreover have "writes es = map (annotate d) (reads es)" if "halted s"
    using p(3) run_halted(1) [OF r that] by simp
  moreover have "reads es = yielded src" if "halted s" "a" "b"
    using run_halted(2) [OF r that(1)] that(2,3) p(2)
      returned_0_done(6) [OF exec_wf [OF r wf_init]] by simp
  ultimately show ?thesis using r p(1) run_completes(1) [of d a b src] run_completes(2) [of sched d a b src]
    by (auto simp del: exec.simps)
qed

theorem frames_written_in_order_witness:
  "halted (snd (exec (in_turn 16) (init sample_detector True True [Frame 3, Frame 4])))
   \<and> reads (fst (exec (in_turn 16) (init sample_detector True True [Frame 3, Frame 4])))
       = yielded [Frame 3, Frame 4]
   \<and> writes (fst (exec (in_turn 16) (init sample_detector True True [Frame 3, Frame 4])))
       = map (annotate sample_detector)
           (reads (fst (exec (in_turn 16) (init sample_detector True True [Frame 3, Frame 4]))))
   \<and> writes (fst (exec (in_turn 16) (init sample_detector True True [Frame 3, Frame 4])))
       = [7, 9]"
proof -
  have h: "halted (snd (exec (in_turn 16) (init sample_detector True True [Frame 3, Frame 4])))"
    by code_simp
  have w: "writes (fst (exec (in_turn 16) (init sample_detector True True [Frame 3, Frame 4])))
       = [7, 9]"
    by code_simp
  from frames_written_in_order
    [of sample_detector True True "[Frame 3, Frame 4]" "in_turn 16"] h w
  show ?thesis by (simp add: case_prod_unfold)
qed

text \<open>
  C4.  When the source or the sink is not open, every run is finite and ends with \<open>main\<close>
  having returned \<open>-1\<close>; no thread is ever started, \<open>cap.read\<close> and \<open>out.write\<close> are never
  called, and source and sink are left as they were.
\<close>

theorem setup_failure:
  "\<not> (a \<and> b) \<Longrightarrow>
   terminates (init d a b src)
   \<and> (\<exists>more. halted (snd (exec (sched @ more) (init d a b src))))
   \<and> (case exec sched (init d a b src) of (es, s) \<Rightarrow>
        starts es = [] \<and> read_calls es = 0 \<and> writes es = []
        \<and> capturePc s = Capture_not_started \<and> processingPc s = Processing_not_started
        \<and> writingPc s = Writing_not_started
        \<and> cap s = src \<and> out s = []
        \<and> (halted s \<longrightarrow> mainPc s = Main_returned (- 1) \<and> (- 1 :: int) \<noteq> 0))"
proof -
  assume n: "\<not> (a \<and> b)"
  obtain es s where r: "exec sched (init d a b src) = (es, s)"
    by (cases "exec sched (init d a b src)")
  note w = exec_wf [OF r wf_init]
  from exec_setup_ok [OF r wf_init setup_ok_init] n have "main_rank (mainPc s) \<le> 1"
    by (auto simp: setup_ok_def)
  with w have "capturePc s = Capture_not_started" "processingPc s = Processing_not_started"
    "writingPc s = Writing_not_started"
    by (simp_all add: wf_defs)
  moreover from exec_setup_phase [OF r wf_init setup_ok_init n]
  have "starts es = []" "read_calls es = 0" "writes es = []" "cap s = src"
    by (simp_all add: init_simps)
  moreover have "mainPc s = Main_returned (- 1)" if "halted s"
    using run_halted(3) [OF r that n] .
  ultimately show ?thesis
    using r run_pipeline(1) [OF r] run_completes(1) [of d a b src]
      run_completes(2) [of sched d a b src]
    by (auto simp del: exec.simps)
qed

theorem setup_failure_witness:
  "\<not> (False \<and> True)
   \<and> halted (snd (exec (in_turn 2) (init sample_detector False True [Frame 3])))
   \<and> mainPc (snd (exec (in_turn 2) (init sample_detector False True [Frame 3])))
       = Main_returned (- 1)
   \<and> starts (fst (exec (in_turn 2) (init sample_detector False True [Frame 3]))) = []
   \<and> read_calls (fst (exec (in_turn 2) (init sample_detector False True [Frame 3]))) = 0
   \<and> writes (fst (exec (in_turn 2) (init sample_detector False True [Frame 3]))) = []"
proof -
  have h: "halted (snd (exec (in_turn 2) (init sample_detector False True [Frame 3])))"
    by code_simp
  have n: "\<not> (False \<and> True)" by simp
  from setup_failure [OF n, of sample_detector "[Frame 3]" "in_turn 2"] h
  show ?thesis by (simp add: case_prod_unfold)
qed

text \<open>
  C9.  When the source yields no frame and source and sink are open, every run is finite
  and nothing is ever written; when no thread can move any more, \<open>finished\<close> is set in
  both queues, the three threads have returned, and \<open>main\<close> has returned 0.
\<close>

theorem empty_source:
  "yielded src = [] \<Longrightarrow>
   terminates (init d True True src)
   \<and> (\<exists>more. halted (snd (exec (sched @ more) (init d True True src))))
   \<and> (case exec sched (init d True True src) of (es, s) \<Rightarrow>
        reads es = [] \<and> writes es = [] \<and> out s = []
        \<and> (halted s \<longrightarrow>
             finished (frameQueue s) \<and> finished (processedQueue s)
             \<and> capturePc s = Capture_done \<and> processingPc s = Processing_done
             \<and> writingPc s = Writing_done \<and> mainPc s = Main_returned 0))"
proof -
  assume y: "yielded src = []"
  obtain es s where r: "exec sched (init d True True src) = (es, s)"
    by (cases "exec sched (init d True True src)")
  note p = run_pipeline [OF r]
  from p(2) y have "reads es = []" by simp
  with p(3) have "writes es = []" by simp
  moreover have "finished (frameQueue s) \<and> finished (processedQueue s)
             \<and> capturePc s = Capture_done \<and> processingPc s = Processing_done
             \<and> writingPc s = Writing_done \<and> mainPc s = Main_returned 0" if "halted s"
    using returned_0_done [OF exec_wf [OF r wf_init]] run_halted(2) [OF r that] by simp
  ultimately show ?thesis
    using r p(1) \<open>reads es = []\<close> run_completes(1) [of d True True src]
      run_completes(2) [of sched d True True src]
    by (auto simp del: exec.simps)
qed

theorem empty_source_witness:
  "yielded ([] :: nat grab list) = []
   \<and> halted (snd (exec (in_turn 12) (init sample_detector True True [])))
   \<and> mainPc (snd (exec (in_turn 12) (init sample_detector True True []))) = Main_returned 0
   \<and> finished (frameQueue (snd (exec (in_turn 12) (init sample_detector True True []))))
   \<and> finished (processedQueue (snd (exec (in_turn 12) (init sample_detector True True []))))
   \<and> writes (fst (exec (in_turn 12) (init sample_detector True True []))) = []"
proof -
  have h: "halted (snd (exec (in_turn 12) (init sample_detector True True [])))"
    by code_simp
  have y: "yielded ([] :: nat grab list) = []" by simp
  from empty_source [OF y, of sample_detector "in_turn 12"] h
  show ?thesis by (simp add: case_prod_unfold)
qed

text \<open>
  C3.  In every run, whatever the source and the schedule, the pairs that the processing
  thread enqueues carry the indices 0, 1, 2, ... in this order, as 32-bit numbers: the
  first index is zero and each next one is the one before plus one.  Read as an \<open>int\<close>,
  the index of the pair at position \<open>k\<close> (counting from 0) is \<open>k\<close> as long as
  \<open>k < 2 ^ 31\<close>, which is as far as the counter \<open>frameIndex\<close> can count.
\<close>

theorem indices_count_from_zero:
  "case exec sched (init d a b src) of (es, s) \<Rightarrow>
     map fst (enqueued es) = map of_nat [0..<length (enqueued es)]
     \<and> (\<forall>k < length (enqueued es). k < 2 ^ 31 \<longrightarrow> sint (fst (enqueued es ! k)) = int k)"
proof -
  obtain es s where r: "exec sched (init d a b src) = (es, s)"
    by (cases "exec sched (init d a b src)")
  from exec_next_index [OF r wf_init]
  have "map fst (enqueued es) = map of_nat [0..<length (enqueued es)]"
    by (simp add: init_simps)
  moreover have "sint (fst (enqueued es ! k)) = int k"
    if "k < length (enqueued es)" "k < 2 ^ 31" for k
    using run_indices [OF r that(1)] sint_index [OF that(2)] by simp
  ultimately show ?thesis using r by simp
qed

theorem indices_count_from_zero_witness:
  "(1::nat) < length (enqueued (fst (exec (in_turn 16)
       (init sample_detector True True [Frame 3, Frame 4]))))
   \<and> (1::nat) < 2 ^ 31
   \<and> sint (fst (enqueued (fst (exec (in_turn 16)
       (init sample_detector True True [Frame 3, Frame 4]))) ! 1)) = 1"
proof -
  have l: "(1::nat) < length (enqueued (fst (exec (in_turn 16)
       (init sample_detector True True [Frame 3, Frame 4]))))"
    by code_simp
  from indices_count_from_zero [of "in_turn 16" sample_detector True True "[Frame 3, Frame 4]"] l
  show ?thesis by (simp add: case_prod_unfold)
qed

text \<open>
  C3 does not hold beyond that range.  On a stream of \<open>2 ^ 31 + 1\<close> frames that pass
  through the threads one by one, \<open>2 ^ 31 + 1\<close> pairs are enqueued and the last one, at
  position \<open>2 ^ 31\<close>, carries the index \<open>- (2 ^ 31)\<close>.
\<close>

theorem index_wraps_counterexample:
  "length (enqueued (fst (exec (frame_by_frame (2 ^ 31 + 1))
       (init sample_detector True True (replicate (2 ^ 31 + 1) (Frame 0)))))) = 2 ^ 31 + 1
   \<and> sint (fst (enqueued (fst (exec (frame_by_frame (2 ^ 31 + 1))
       (init sample_detector True True (replicate (2 ^ 31 + 1) (Frame 0))))) ! (2 ^ 31)))
       = - (2 ^ 31)"
proof -
  obtain es s where r: "exec (frame_by_frame (2 ^ 31 + 1))
       (init sample_detector True True (replicate (2 ^ 31 + 1) (Frame 0))) = (es, s)"
    by (cases "exec (frame_by_frame (2 ^ 31 + 1))
       (init sample_detector True True (replicate (2 ^ 31 + 1) (Frame (0::nat))))")
  from frame_by_frame_run [of "2 ^ 31 + 1" sample_detector 0] r
  have l: "length (enqueued es) = 2 ^ 31 + 1" by simp
  then have "2 ^ 31 < length (enqueued es)" by simp
  from run_indices [OF r this] have "fst (enqueued es ! (2 ^ 31)) = of_nat (2 ^ 31)" .
  with l r show ?thesis using sint_index_wraps by simp
qed

text \<open>
  C8.  \<open>main\<close> constructs \<open>processingDone\<close> with the value false, and that is the only
  write: no transition of any thread makes it true, the three threads leave it as it is,
  and in every state that a run passes through it is false; it is never set.  Nothing
  reads it: a transition, and so a run, from a state with another value of the flag has
  the same events and the same resulting state up to the flag itself.
\<close>

theorem processingDone_is_dead:
  "map_option (apsnd (processingDone_update (\<lambda>_. x))) (step t (s\<lparr>processingDone := b\<rparr>))
     = map_option (apsnd (processingDone_update (\<lambda>_. x))) (step t s)
   \<and> fst (exec sched (s\<lparr>processingDone := b\<rparr>)) = fst (exec sched s)
   \<and> (snd (exec sched (s\<lparr>processingDone := b\<rparr>)))\<lparr>processingDone := x\<rparr>
       = (snd (exec sched s))\<lparr>processingDone := x\<rparr>
   \<and> (mainPc s = Main_open_out \<and> out_isOpened s \<longrightarrow>
        (\<exists>e s'. step mainThread s = Some (e, s') \<and> \<not> processingDone s'))
   \<and> (t \<noteq> mainThread \<longrightarrow>
        (case step t s of None \<Rightarrow> True | Some (e, s') \<Rightarrow> processingDone s' = processingDone s))
   \<and> (\<not> processingDone s \<longrightarrow>
        (case step t s of None \<Rightarrow> True | Some (e, s') \<Rightarrow> \<not> processingDone s'))
   \<and> \<not> processingDone (snd (exec sched (init d a0 b0 src)))
   \<and> True \<notin> set (flag_values sched (init d a0 b0 src))"
proof (intro conjI impI)
  show "map_option (apsnd (processingDone_update (\<lambda>_. x))) (step t (s\<lparr>processingDone := b\<rparr>))
     = map_option (apsnd (processingDone_update (\<lambda>_. x))) (step t s)"
    by (rule step_processingDone)
  have "(s\<lparr>processingDone := b\<rparr>)\<lparr>processingDone := x\<rparr> = s\<lparr>processingDone := x\<rparr>" by simp
  from exec_processingDone [OF this]
  show "fst (exec sched (s\<lparr>processingDone := b\<rparr>)) = fst (exec sched s)"
    "(snd (exec sched (s\<lparr>processingDone := b\<rparr>)))\<lparr>processingDone := x\<rparr>
       = (snd (exec sched s))\<lparr>processingDone := x\<rparr>"
    by simp_all
  show "\<exists>e s'. step mainThread s = Some (e, s') \<and> \<not> processingDone s'"
    if "mainPc s = Main_open_out \<and> out_isOpened s"
    using that by (simp add: step_def main_step_def)
  show "case step t s of None \<Rightarrow> True | Some (e, s') \<Rightarrow> processingDone s' = processingDone s"
    if "t \<noteq> mainThread"
    using that by (auto split: option.splits dest: stage_keeps_processingDone)
  show "case step t s of None \<Rightarrow> True | Some (e, s') \<Rightarrow> \<not> processingDone s'"
    if "\<not> processingDone s"
    using that by (auto split: option.splits dest: step_processingDone_False)
  show "\<not> processingDone (snd (exec sched (init d a0 b0 src)))"
    by (rule exec_processingDone_False) (simp add: init_def)
  show "True \<notin> set (flag_values sched (init d a0 b0 src))"
    by (rule flag_values_False) (simp add: init_def)
qed

theorem processingDone_is_dead_witness:
  "mainPc ((init sample_detector True True [Frame 3])\<lparr>mainPc := Main_open_out\<rparr>) = Main_open_out
   \<and> out_isOpened ((init sample_detector True True [Frame 3])\<lparr>mainPc := Main_open_out\<rparr>)
   \<and> (\<exists>e s'. step mainThread ((init sample_detector True True [Frame 3])\<lparr>mainPc := Main_open_out\<rparr>)
          = Some (e, s') \<and> \<not> processingDone s')
   \<and> captureThread \<noteq> mainThread
   \<and> (case step captureThread
              ((init sample_detector True True [Frame 3])\<lparr>capturePc := Capture_read\<rparr>) of
         None \<Rightarrow> True
       | Some (e, s') \<Rightarrow>
           processingDone s'
             = processingDone
                 ((init sample_detector True True [Frame 3])\<lparr>capturePc := Capture_read\<rparr>))
   \<and> \<not> processingDone ((init sample_detector True True [Frame 3])\<lparr>capturePc := Capture_read\<rparr>)
   \<and> (case step captureThread
              ((init sample_detector True True [Frame 3])\<lparr>capturePc := Capture_read\<rparr>) of
         None \<Rightarrow> True
       | Some (e, s') \<Rightarrow> \<not> processingDone s')
   \<and> True \<notin> set (flag_values (in_turn 16) (init sample_detector True True [Frame 3]))"
proof -
  let ?s1 = "(init sample_detector True True [Frame (3::nat)])\<lparr>mainPc := Main_open_out\<rparr>"
  let ?s2 = "(init sample_detector True True [Frame (3::nat)])\<lparr>capturePc := Capture_read\<rparr>"
  have h: "mainPc ?s1 = Main_open_out \<and> out_isOpened ?s1" by (simp add: init_def)
  have n: "captureThread \<noteq> mainThread" by simp
  have f: "\<not> processingDone ?s2" by (simp add: init_def)
  from h processingDone_is_dead
      [where t = mainThread and s = ?s1 and x = False and b = False and sched = "[]"
         and d = sample_detector and ?a0.0 = True and ?b0.0 = True and src = "[]"]
  have 1: "\<exists>e s'. step mainThread ?s1 = Some (e, s') \<and> \<not> processingDone s'" by blast
  note inst = processingDone_is_dead
      [where t = captureThread and s = ?s2 and x = False and b = False and sched = "in_turn 16"
         and d = sample_detector and ?a0.0 = True and ?b0.0 = True and src = "[Frame 3]"]
  from n inst
  have 2: "case step captureThread ?s2 of None \<Rightarrow> True
       | Some (e, s') \<Rightarrow> processingDone s' = processingDone ?s2" by blast
  from f inst
  have 3: "case step captureThread ?s2 of None \<Rightarrow> True
       | Some (e, s') \<Rightarrow> \<not> processingDone s'" by blast
  from inst
  have 4: "True \<notin> set (flag_values (in_turn 16) (init sample_detector True True [Frame 3]))"
    by blast
  from h n f 1 2 3 4 show ?thesis by blast
qed

text \<open>
  C8 as it was stated, with the flag set during a run, does not hold: in the run below,
  which goes on until no thread can move, \<open>processingDone\<close> is true in no state.
\<close>

theorem processingDone_never_set_counterexample:
  "halted (snd (exec (in_turn 16) (init sample_detector True True [Frame 3, Frame 4])))
   \<and> mainPc (snd (exec (in_turn 16) (init sample_detector True True [Frame 3, Frame 4])))
       = Main_returned 0
   \<and> True \<notin> set (flag_values (in_turn 16) (init sample_detector True True [Frame 3, Frame 4]))"
proof (intro conjI)
  show "halted (snd (exec (in_turn 16) (init sample_detector True True [Frame 3, Frame 4])))"
    by code_simp
  show "mainPc (snd (exec (in_turn 16) (init sample_detector True True [Frame 3, Frame 4])))
       = Main_returned 0"
    by code_simp
  show "True \<notin> set (flag_values (in_turn 16) (init sample_detector True True [Frame 3, Frame 4]))"
    by code_simp
qed

text \<open>
  C7.  A read that fails and a read at the end of the stream are the same transition of
  the capture thread, to the call of \<open>setFinished\<close>.  A run on a source whose read fails
  after the frames \<open>fs\<close> and the run, under the same schedule, on the source that ends
  after \<open>fs\<close> have the same events and reach the same state, up to what is left in the
  source.  In such a run \<open>cap.read\<close> is called at most \<open>length fs + 1\<close> times and
  \<open>frameQueue.setFinished\<close> at most once, and when the capture thread has returned,
  exactly so often; it has returned when no thread can move and source and sink were
  open.  Every such run is finite.
\<close>

theorem read_error_like_exhaustion:
  "(capturePc s0 = Capture_read \<longrightarrow>
      step captureThread (s0\<lparr>cap := ReadError # rest\<rparr>)
        = Some (Read None, s0\<lparr>cap := rest, capturePc := Capture_setFinished\<rparr>)
      \<and> step captureThread (s0\<lparr>cap := []\<rparr>)
        = Some (Read None, s0\<lparr>cap := [], capturePc := Capture_setFinished\<rparr>))
   \<and> fst (exec sched (init d a b (map Frame fs @ ReadError # rest)))
       = fst (exec sched (init d a b (map Frame fs)))
   \<and> (snd (exec sched (init d a b (map Frame fs @ ReadError # rest))))\<lparr>cap := []\<rparr>
       = (snd (exec sched (init d a b (map Frame fs))))\<lparr>cap := []\<rparr>
   \<and> terminates (init d a b (map Frame fs @ ReadError # rest))
   \<and> (case exec sched (init d a b (map Frame fs @ ReadError # rest)) of (es, s) \<Rightarrow>
        finishes es \<le> 1 \<and> read_calls es \<le> length fs + 1
        \<and> (capturePc s = Capture_done \<longrightarrow>
             finishes es = 1 \<and> read_calls es = length fs + 1 \<and> reads es = fs
             \<and> finished (frameQueue s))
        \<and> (halted s \<and> a \<and> b \<longrightarrow> capturePc s = Capture_done))"
proof -
  let ?src = "map Frame fs @ ReadError # rest"
  obtain es s where r: "exec sched (init d a b ?src) = (es, s)"
    by (cases "exec sched (init d a b ?src)")
  note w = exec_wf [OF r wf_init]
  from exec_counts [OF r wf_init]
  have n: "read_calls es + reads_left (capturePc s) (cap s) = Suc (length fs)"
    "finishes es + finishes_left (capturePc s) = 1"
    by (simp_all add: init_def yielded_frames)
  have "finishes es = 1 \<and> read_calls es = length fs + 1 \<and> reads es = fs
      \<and> finished (frameQueue s)" if "capturePc s = Capture_done"
    using n that w run_pipeline(2) [OF r] by (simp add: yielded_frames to_read_def wf_defs)
  moreover have "capturePc s = Capture_done" if "halted s" "a" "b"
    using run_halted(2) [OF r that(1)] that(2,3) returned_0_done(1) [OF w] by simp
  moreover have "capturePc s0 = Capture_read \<longrightarrow>
      step captureThread (s0\<lparr>cap := ReadError # rest\<rparr>)
        = Some (Read None, s0\<lparr>cap := rest, capturePc := Capture_setFinished\<rparr>)
      \<and> step captureThread (s0\<lparr>cap := []\<rparr>)
        = Some (Read None, s0\<lparr>cap := [], capturePc := Capture_setFinished\<rparr>)"
    by (simp add: step_def capture_step_def read_def)
  moreover note same_yield_same_run [of ?src "map Frame fs" sched d a b]
    run_completes(1) [of d a b ?src]
  ultimately show ?thesis using r n by (simp add: yielded_frames)
qed

theorem read_error_like_exhaustion_witness:
  "capturePc ((init sample_detector True True [])\<lparr>capturePc := Capture_read\<rparr>) = Capture_read
   \<and> step captureThread
        ((init sample_detector True True [])\<lparr>capturePc := Capture_read, cap := [ReadError, Frame 4]\<rparr>)
       = Some (Read None,
           (init sample_detector True True [])\<lparr>capturePc := Capture_read, cap := [Frame 4],
              capturePc := Capture_setFinished\<rparr>)
   \<and> halted (snd (exec (in_turn 16) (init sample_detector True True [Frame 3, ReadError, Frame 4])))
   \<and> capturePc (snd (exec (in_turn 16) (init sample_detector True True [Frame 3, ReadError, Frame 4])))
       = Capture_done
   \<and> finishes (fst (exec (in_turn 16) (init sample_detector True True [Frame 3, ReadError, Frame 4])))
       = 1
   \<and> read_calls (fst (exec (in_turn 16) (init sample_detector True True [Frame 3, ReadError, Frame 4])))
       = 2
   \<and> reads (fst (exec (in_turn 16) (init sample_detector True True [Frame 3, ReadError, Frame 4])))
       = [3]
   \<and> fst (exec (in_turn 16) (init sample_detector True True [Frame 3, ReadError, Frame 4]))
       = fst (exec (in_turn 16) (init sample_detector True True [Frame 3]))"
proof -
  let ?s0 = "(init sample_detector True True [])\<lparr>capturePc := Capture_read\<rparr>"
  have p: "capturePc ?s0 = Capture_read" by simp
  have h: "halted (snd (exec (in_turn 16)
      (init sample_detector True True [Frame 3, ReadError, Frame 4])))"
    by code_simp
  from p h read_error_like_exhaustion
    [where ?s0.0 = ?s0 and rest = "[Frame 4]" and fs = "[3]" and sched = "in_turn 16"
       and d = sample_detector and a = True and b = True]
  show ?thesis by (auto simp add: case_prod_unfold)
qed

end
